theory Spec2Isabelle
  imports Main "HOL-Library.Sublist"
begin

section \<open>Data model of the orchestrator\<close>

text \<open>
  An item is one dictionary of the lists returned by the GitHub client: a pull request,
  a task or an epic. The client always sets \<open>repo\<close>, and \<open>number\<close> and \<open>title\<close> are
  requested from \<open>gh\<close> for every item; \<open>body\<close> is requested for issues only, so it is
  optional here (the code reads it with \<open>.get("body", "")\<close>).
\<close>

record item =
  item_repo :: string
  item_number :: int
  item_title :: string
  item_body :: "string option"
  has_processing_label :: bool

text \<open>
  The state built by \<open>_scan_github_state\<close>. The timestamp and the counts (which are the
  lengths of the lists) are left out: no decision reads them.
\<close>

record snapshot =
  prs_items :: "item list"
  open_items :: "item list"
  processing_items :: "item list"
  epics_items :: "item list"

text \<open>
  An action dictionary once its \<open>type\<close>, \<open>repo\<close> and \<open>number\<close> are known. The other
  keys are present or absent depending on where the action came from.
\<close>

record action =
  act_type :: string
  act_repo :: string
  act_number :: int
  act_title :: "string option"
  act_body :: "string option"
  act_priority :: "int option"

type_synonym action_key = "string \<times> string \<times> int"

definition action_key :: "action \<Rightarrow> action_key" where
  "action_key a = (act_type a, act_repo a, act_number a)"

definition get_or_empty :: "string option \<Rightarrow> string" where
  "get_or_empty v = (case v of None \<Rightarrow> [] | Some s \<Rightarrow> s)"

section \<open>The dedup tracker\<close>

text \<open>
  \<open>_can_process_action\<close>: the set \<open>current_run_actions\<close> is passed in and returned.
\<close>

definition can_process_action :: "action_key set \<Rightarrow> action_key \<Rightarrow> bool \<times> action_key set" where
  "can_process_action cur k = (if k \<in> cur then (False, cur) else (True, insert k cur))"

section \<open>The deterministic fallback\<close>

definition review_action :: "item \<Rightarrow> action" where
  "review_action pr =
     \<lparr>act_type = ''review_pr'', act_repo = item_repo pr, act_number = item_number pr,
      act_title = Some (item_title pr), act_body = None, act_priority = Some 1\<rparr>"

definition implement_action :: "item \<Rightarrow> action" where
  "implement_action task =
     \<lparr>act_type = ''implement_task'', act_repo = item_repo task, act_number = item_number task,
      act_title = Some (item_title task), act_body = Some (get_or_empty (item_body task)),
      act_priority = Some 2\<rparr>"

definition decompose_action :: "item \<Rightarrow> action" where
  "decompose_action epic =
     \<lparr>act_type = ''decompose_epic'', act_repo = item_repo epic, act_number = item_number epic,
      act_title = Some (item_title epic), act_body = Some (get_or_empty (item_body epic)),
      act_priority = Some 3\<rparr>"

text \<open>
  One of the three \<open>for\<close> loops of \<open>_simple_decision_logic\<close>, over the slice it is given.
  The first component of the result says whether the loop left the function through
  \<open>return actions\<close>. The budget \<open>max_actions\<close> is a count, hence a natural number.
\<close>

fun scan_tier :: "(item \<Rightarrow> action) \<Rightarrow> nat \<Rightarrow> item list \<Rightarrow> action list \<Rightarrow> action_key set
    \<Rightarrow> bool \<times> action list \<times> action_key set" where
  "scan_tier mk max_actions [] actions cur = (False, actions, cur)"
| "scan_tier mk max_actions (it # its) actions cur =
     (case can_process_action cur (action_key (mk it)) of
        (True, cur') \<Rightarrow>
          (let actions' = actions @ [mk it]
           in if length actions' \<ge> max_actions then (True, actions', cur')
              else scan_tier mk max_actions its actions' cur')
      | (False, cur') \<Rightarrow> scan_tier mk max_actions its actions cur')"

definition simple_decision_logic :: "nat \<Rightarrow> snapshot \<Rightarrow> action_key set \<Rightarrow> action list \<times> action_key set" where
  "simple_decision_logic max_actions state cur =
     (case scan_tier review_action max_actions (take max_actions (prs_items state)) [] cur of
        (True, a1, c1) \<Rightarrow> (a1, c1)
      | (False, a1, c1) \<Rightarrow>
     (case scan_tier implement_action max_actions
             (take (max_actions - length a1) (open_items state)) a1 c1 of
        (True, a2, c2) \<Rightarrow> (a2, c2)
      | (False, a2, c2) \<Rightarrow>
     (case scan_tier decompose_action max_actions
             (take (max_actions - length a2) (epics_items state)) a2 c2 of
        (r3, a3, c3) \<Rightarrow> (a3, c3))))"

section \<open>The oracle path\<close>

text \<open>
  One element of the \<open>actions\<close> list parsed from the oracle's JSON reply. Nothing
  guarantees that a key is present: reading an absent key raises \<open>KeyError\<close>. Numbers
  are compared with Python's \<open>==\<close>, under which a JSON number equal to an item's
  number is interchangeable with it, also as a member of the tracker set.
\<close>

record raw_action =
  r_type :: "string option"
  r_repo :: "string option"
  r_number :: "int option"
  r_title :: "string option"
  r_body :: "string option"
  r_priority :: "int option"

datatype exn = KeyError string

text \<open>
  The search loops of \<open>_enrich_action\<close>. The loop body reads \<open>action["repo"]\<close> for
  every item it visits, and \<open>action["number"]\<close> only when the repositories agree
  (\<open>and\<close> evaluates its right operand lazily).
\<close>

fun find_item :: "raw_action \<Rightarrow> item list \<Rightarrow> exn + (string \<times> int \<times> item) option" where
  "find_item a [] = Inr None"
| "find_item a (it # its) =
     (case r_repo a of
        None \<Rightarrow> Inl (KeyError ''repo'')
      | Some r \<Rightarrow>
          if item_repo it = r then
            (case r_number a of
               None \<Rightarrow> Inl (KeyError ''number'')
             | Some n \<Rightarrow> if item_number it = n then Inr (Some (r, n, it)) else find_item a its)
          else find_item a its)"

definition enrich_action :: "raw_action \<Rightarrow> snapshot \<Rightarrow> exn + action option" where
  "enrich_action a state =
     (case r_type a of
        None \<Rightarrow> Inl (KeyError ''type'')
      | Some t \<Rightarrow>
          if t = ''review_pr'' then
            (case find_item a (prs_items state) of
               Inl e \<Rightarrow> Inl e
             | Inr None \<Rightarrow> Inr None
             | Inr (Some (r, n, pr)) \<Rightarrow>
                 Inr (Some \<lparr>act_type = t, act_repo = r, act_number = n,
                   act_title = Some (item_title pr), act_body = r_body a,
                   act_priority = r_priority a\<rparr>))
          else if t = ''implement_task'' then
            (case find_item a (open_items state) of
               Inl e \<Rightarrow> Inl e
             | Inr None \<Rightarrow> Inr None
             | Inr (Some (r, n, task)) \<Rightarrow>
                 Inr (Some \<lparr>act_type = t, act_repo = r, act_number = n,
                   act_title = Some (item_title task),
                   act_body = Some (get_or_empty (item_body task)),
                   act_priority = r_priority a\<rparr>))
          else if t = ''decompose_epic'' then
            (case find_item a (epics_items state) of
               Inl e \<Rightarrow> Inl e
             | Inr None \<Rightarrow> Inr None
             | Inr (Some (r, n, epic)) \<Rightarrow>
                 Inr (Some \<lparr>act_type = t, act_repo = r, act_number = n,
                   act_title = Some (item_title epic),
                   act_body = Some (get_or_empty (item_body epic)),
                   act_priority = r_priority a\<rparr>))
          else if t = ''monitor_task'' then
            (case find_item a (processing_items state) of
               Inl e \<Rightarrow> Inl e
             | Inr None \<Rightarrow> Inr None
             | Inr (Some (r, n, task)) \<Rightarrow>
                 Inr (Some \<lparr>act_type = t, act_repo = r, act_number = n,
                   act_title = Some (item_title task), act_body = r_body a,
                   act_priority = r_priority a\<rparr>))
          else Inr None)"

text \<open>
  The enrichment loop of \<open>_decide_actions\<close>. The tracker is an attribute of the
  orchestrator, so what was registered before an exception stays registered: the
  tracker is returned in both cases.
\<close>

fun enrich_all :: "snapshot \<Rightarrow> raw_action list \<Rightarrow> action list \<Rightarrow> action_key set
    \<Rightarrow> (exn + action list) \<times> action_key set" where
  "enrich_all state [] enriched_actions cur = (Inr enriched_actions, cur)"
| "enrich_all state (a # rest) enriched_actions cur =
     (case enrich_action a state of
        Inl e \<Rightarrow> (Inl e, cur)
      | Inr None \<Rightarrow> enrich_all state rest enriched_actions cur
      | Inr (Some enriched) \<Rightarrow>
          (case can_process_action cur (action_key enriched) of
             (True, cur') \<Rightarrow> enrich_all state rest (enriched_actions @ [enriched]) cur'
           | (False, cur') \<Rightarrow> enrich_all state rest enriched_actions cur'))"

text \<open>
  What the oracle does when it is asked: the call or the parsing of its reply raises
  (\<open>Raises\<close>), or the reply is a JSON object whose \<open>actions\<close> are the given list. The
  prompt built from the state only influences this reply, which is an arbitrary input
  here. \<open>None\<close> for the oracle is \<open>self.ollama\<close> being unset.
\<close>

datatype oracle_reply = Raises | Decision "raw_action list"

definition decide_actions :: "nat \<Rightarrow> oracle_reply option \<Rightarrow> snapshot \<Rightarrow> action_key set
    \<Rightarrow> action list \<times> action_key set" where
  "decide_actions max_parallel_actions ollama state cur =
     (case ollama of
        None \<Rightarrow> simple_decision_logic max_parallel_actions state cur
      | Some Raises \<Rightarrow> simple_decision_logic max_parallel_actions state cur
      | Some (Decision actions) \<Rightarrow>
          (case enrich_all state (take max_parallel_actions actions) [] cur of
             (Inr enriched_actions, cur') \<Rightarrow> (enriched_actions, cur')
           | (Inl e, cur') \<Rightarrow> simple_decision_logic max_parallel_actions state cur'))"

section \<open>The snapshot builder\<close>

text \<open>Python's \<open>str\<close> on a non-negative integer, and on any integer.\<close>

function str_nat :: "nat \<Rightarrow> string" where
  "str_nat n =
     (if n < 10 then [''0123456789'' ! n]
      else str_nat (n div 10) @ [''0123456789'' ! (n mod 10)])"
  by pat_completeness auto
termination
  by (relation "measure id") auto







section \<open>The executor agent\<close>

record config =
  loop_interval :: nat
  max_parallel_actions :: nat
  action_timeout :: nat
  retry_attempts :: nat
  retry_delay :: nat

definition ORCHESTRATOR_CONFIG :: config where
  "ORCHESTRATOR_CONFIG =
     \<lparr>loop_interval = 600, max_parallel_actions = 3, action_timeout = 600,
      retry_attempts = 2, retry_delay = 30\<rparr>"

text \<open>
  What one external process does when \<open>subprocess.run\<close> starts it: it exits after some
  seconds with a return code, its standard output and its standard error, or the call
  itself raises an exception other than \<open>TimeoutExpired\<close>, with the given message.
  \<open>subprocess.run\<close> raises \<open>TimeoutExpired\<close> when the process outlives the timeout.
\<close>

datatype proc = Exits nat int string string | Crashes string

text \<open>
  The result dictionary. A success stores its count under the key \<open>attempt\<close>, a
  failure under \<open>attempts\<close>; \<open>action\<close> is set by the orchestrator's worker. The
  payload \<open>output\<close> is derived from the standard output alone, which stands for it.
\<close>

record action_result =
  res_status :: string
  res_error :: "string option"
  res_output :: "string option"
  res_attempt :: "nat option"
  res_attempts :: "nat option"
  res_action :: "action option"

datatype label_op = AddLabel string int string | RemoveLabel string int string

text \<open>
  What a worker did: how many times it started the executor, the pauses it slept, the
  seconds that passed (the runs and the pauses; everything else takes no time), and
  the label edits.
\<close>

record exec_log =
  runs :: nat
  sleeps :: "nat list"
  clock :: nat
  label_ops :: "label_op list"

definition empty_log :: exec_log where
  "empty_log = \<lparr>runs = 0, sleeps = [], clock = 0, label_ops = []\<rparr>"

definition after_run :: "nat \<Rightarrow> exec_log \<Rightarrow> exec_log" where
  "after_run seconds log = log\<lparr>runs := runs log + 1, clock := clock log + seconds\<rparr>"

definition after_sleep :: "nat \<Rightarrow> exec_log \<Rightarrow> exec_log" where
  "after_sleep seconds log = log\<lparr>sleeps := sleeps log @ [seconds], clock := clock log + seconds\<rparr>"

definition success_result :: "string \<Rightarrow> nat \<Rightarrow> action_result" where
  "success_result out n =
     \<lparr>res_status = ''success'', res_error = None, res_output = Some out,
      res_attempt = Some n, res_attempts = None, res_action = None\<rparr>"

definition failed_result :: "string \<Rightarrow> string option \<Rightarrow> nat option \<Rightarrow> action_result" where
  "failed_result msg out n =
     \<lparr>res_status = ''failed'', res_error = Some msg, res_output = out,
      res_attempt = None, res_attempts = n, res_action = None\<rparr>"

definition timeout_message :: "nat \<Rightarrow> string" where
  "timeout_message timeout = ''Command timed out after '' @ str_nat timeout @ '' seconds''"

text \<open>
  The retry loop of \<open>_run_claude_command\<close>, from the iteration \<open>attempt\<close> on; \<open>env\<close>
  gives the behaviour of the process started in each iteration.
\<close>

function attempt_loop :: "nat \<Rightarrow> nat \<Rightarrow> nat \<Rightarrow> (nat \<Rightarrow> proc) \<Rightarrow> nat \<Rightarrow> exec_log
    \<Rightarrow> action_result \<times> exec_log" where
  "attempt_loop attempts delay timeout env attempt log =
     (if attempt < attempts then
        (case env attempt of
           Exits seconds returncode out err \<Rightarrow>
             if seconds > timeout then
               (failed_result (timeout_message timeout) None (Some (attempt + 1)),
                after_run timeout log)
             else if returncode = 0 then
               (success_result out (attempt + 1), after_run seconds log)
             else
               (let error_msg = (if err = [] then ''Unknown error'' else err)
                in if attempt < attempts - 1 then
                     attempt_loop attempts delay timeout env (attempt + 1)
                       (after_sleep delay (after_run seconds log))
                   else (failed_result error_msg (Some out) (Some attempts), after_run seconds log))
         | Crashes msg \<Rightarrow>
             if attempt < attempts - 1 then
               attempt_loop attempts delay timeout env (attempt + 1) (after_sleep delay (after_run 0 log))
             else (failed_result msg None (Some attempts), after_run 0 log))
      else (failed_result ''Max retry attempts reached'' None (Some attempts), log))"
  by pat_completeness auto
termination
  by (relation "measure (\<lambda>(attempts, delay, timeout, env, attempt, log). attempts - attempt)")
    auto

definition run_claude_command :: "config \<Rightarrow> nat option \<Rightarrow> (nat \<Rightarrow> proc) \<Rightarrow> exec_log
    \<Rightarrow> action_result \<times> exec_log" where
  "run_claude_command cfg timeout env log =
     attempt_loop (retry_attempts cfg) (retry_delay cfg)
       (case timeout of None \<Rightarrow> action_timeout cfg | Some t \<Rightarrow> t) env 0 log"

definition add_label :: "string \<Rightarrow> int \<Rightarrow> string \<Rightarrow> exec_log \<Rightarrow> exec_log" where
  "add_label r n label log = log\<lparr>label_ops := label_ops log @ [AddLabel r n label]\<rparr>"

definition remove_label :: "string \<Rightarrow> int \<Rightarrow> string \<Rightarrow> exec_log \<Rightarrow> exec_log" where
  "remove_label r n label log = log\<lparr>label_ops := label_ops log @ [RemoveLabel r n label]\<rparr>"

definition implement_task :: "config \<Rightarrow> action \<Rightarrow> (nat \<Rightarrow> proc) \<Rightarrow> action_result \<times> exec_log" where
  "implement_task cfg a env =
     (let log0 = add_label (act_repo a) (act_number a) ''processing'' empty_log;
          (result, log1) = run_claude_command cfg None env log0
      in if res_status result = ''success''
         then (result, add_label (act_repo a) (act_number a) ''status:review-requested'' log1)
         else (result, remove_label (act_repo a) (act_number a) ''processing'' log1))"

definition execute_task :: "config \<Rightarrow> action \<Rightarrow> (nat \<Rightarrow> proc) \<Rightarrow> action_result \<times> exec_log" where
  "execute_task cfg a env =
     (if act_type a = ''review_pr'' then run_claude_command cfg None env empty_log
      else if act_type a = ''implement_task'' then implement_task cfg a env
      else if act_type a = ''decompose_epic'' then run_claude_command cfg None env empty_log
      else if act_type a = ''monitor_task'' then run_claude_command cfg (Some 120) env empty_log
      else (failed_result (''Unknown action type: '' @ act_type a) None None, empty_log))"

section \<open>The workers and the join barrier\<close>

text \<open>
  \<open>_execute_actions\<close> starts one thread per action; all of them start at second 0. A
  worker is described by the second at which \<open>execute_with_result\<close> appends its result
  to the shared list, and by that result.
\<close>

type_synonym job = "action \<times> (nat \<Rightarrow> proc)"

definition worker :: "config \<Rightarrow> job \<Rightarrow> nat \<times> action_result" where
  "worker cfg j =
     (let (result, log) = execute_task cfg (fst j) (snd j)
      in (clock log, result\<lparr>res_action := Some (fst j)\<rparr>))"

text \<open>
  The loop \<open>for thread in threads: thread.join(timeout=timeout)\<close>: \<open>now\<close> is the second
  at which the control thread reaches a join, which returns when the thread is over or
  when the timeout has passed, whichever comes first.
\<close>

fun join_loop :: "nat \<Rightarrow> nat list \<Rightarrow> nat \<Rightarrow> nat" where
  "join_loop timeout [] now = now"
| "join_loop timeout (finish # threads) now =
     join_loop timeout threads (if finish \<le> now then now else min finish (now + timeout))"

text \<open>
  The contents of the shared list \<open>results\<close> at a given second: the results of the
  workers over by then, in the order of their completion (in the order of the start
  among workers over in the same second).
\<close>

definition results_at :: "(nat \<times> action_result) list \<Rightarrow> nat \<Rightarrow> action_result list" where
  "results_at workers t = map snd (filter (\<lambda>w. fst w \<le> t) (sort_key fst workers))"

text \<open>
  \<open>_execute_actions\<close>: the second at which it returns, and the contents of the list it
  returns at that second. The list it returns is the shared list itself, whose later
  contents are \<open>results_later\<close>.
\<close>

definition execute_actions :: "config \<Rightarrow> job list \<Rightarrow> nat \<times> action_result list" where
  "execute_actions cfg jobs =
     (if jobs = [] then (0, [])
      else (let workers = map (worker cfg) jobs;
                t = join_loop (action_timeout cfg) (map fst workers) 0
            in (t, results_at workers t)))"

definition results_later :: "config \<Rightarrow> job list \<Rightarrow> nat \<Rightarrow> action_result list" where
  "results_later cfg jobs t = results_at (map (worker cfg) jobs) t"

section \<open>Predicates used in the statements\<close>

text \<open>
  A list of actions is tiered for a state when it consists of review actions, then
  implement actions, then decompose actions, each group built from a subsequence of
  the corresponding list of the state, in the order of that list.
\<close>

definition tiered :: "snapshot \<Rightarrow> action list \<Rightarrow> bool" where
  "tiered state acts \<longleftrightarrow>
     (\<exists>ps ts es. acts = map review_action ps @ map implement_action ts @ map decompose_action es
        \<and> subseq ps (prs_items state) \<and> subseq ts (open_items state)
        \<and> subseq es (epics_items state))"

text \<open>
  The target of a key is in the state when the list that \<open>_enrich_action\<close> searches
  for the key's type holds an item of the key's repository and number.
\<close>

definition target_in :: "snapshot \<Rightarrow> action_key \<Rightarrow> bool" where
  "target_in state k =
     (case k of (t, r, n) \<Rightarrow>
        list_ex (\<lambda>i. item_repo i = r \<and> item_number i = n)
          (if t = ''review_pr'' then prs_items state
           else if t = ''implement_task'' then open_items state
           else if t = ''decompose_epic'' then epics_items state
           else if t = ''monitor_task'' then processing_items state
           else []))"

text \<open>
  The ways one attempt can end, for a given timeout: a failure that is retried (a
  non-zero return code in time, or an exception other than the timeout), or the
  timeout. The count recorded in a result is the one stored under \<open>attempt\<close> or
  \<open>attempts\<close>. The timeout in force is the caller's, or else the configured one.
\<close>

definition transient :: "nat \<Rightarrow> proc \<Rightarrow> bool" where
  "transient timeout p =
     (case p of Exits seconds returncode out err \<Rightarrow> seconds \<le> timeout \<and> returncode \<noteq> 0
      | Crashes msg \<Rightarrow> True)"

definition times_out :: "nat \<Rightarrow> proc \<Rightarrow> bool" where
  "times_out timeout p =
     (case p of Exits seconds returncode out err \<Rightarrow> seconds > timeout | Crashes msg \<Rightarrow> False)"

definition recorded_attempts :: "action_result \<Rightarrow> nat option" where
  "recorded_attempts r = (case res_attempt r of Some n \<Rightarrow> Some n | None \<Rightarrow> res_attempts r)"

definition effective_timeout :: "config \<Rightarrow> nat option \<Rightarrow> nat" where
  "effective_timeout cfg timeout = (case timeout of None \<Rightarrow> action_timeout cfg | Some t \<Rightarrow> t)"

text \<open>
  Dedup by first occurrence, stated without a loop: of a list of candidates, those
  whose key is neither in the tracker nor the key of an earlier candidate, in the
  order of the list.
\<close>

definition first_admitted :: "action_key set \<Rightarrow> action list \<Rightarrow> action list" where
  "first_admitted cur cands =
     map snd (filter (\<lambda>(i, c). action_key c \<notin> cur
                 \<and> action_key c \<notin> action_key ` set (take i cands))
        (enumerate 0 cands))"

text \<open>
  The candidates of the oracle path: the proposals that the enrichment resolves, in
  the order of the proposals.
\<close>

definition candidates :: "snapshot \<Rightarrow> raw_action list \<Rightarrow> action list" where
  "candidates state proposals =
     List.map_filter
       (\<lambda>a. case enrich_action a state of Inr (Some enriched) \<Rightarrow> Some enriched | _ \<Rightarrow> None)
       proposals"

text \<open>
  A tier is starved when one of its \<open>n\<close> examined items has a key that was in the
  tracker before the call, and an item after the examined ones has a key that is not
  in the tracker even after the call.
\<close>

definition starved_tier :: "action_key set \<Rightarrow> action_key set \<Rightarrow> (item \<Rightarrow> action) \<Rightarrow> nat
    \<Rightarrow> item list \<Rightarrow> bool" where
  "starved_tier before after mk n items \<longleftrightarrow>
     list_ex (\<lambda>d. action_key (mk d) \<in> before) (take n items)
     \<and> list_ex (\<lambda>p. action_key (mk p) \<notin> after) (drop n items)"

section \<open>Example data\<close>

definition example_item :: "string \<Rightarrow> int \<Rightarrow> item" where
  "example_item r n =
     \<lparr>item_repo = r, item_number = n, item_title = ''title'', item_body = None,
      has_processing_label = False\<rparr>"

definition proposal :: "string \<Rightarrow> string \<Rightarrow> int \<Rightarrow> raw_action" where
  "proposal t r n =
     \<lparr>r_type = Some t, r_repo = Some r, r_number = Some n, r_title = None, r_body = None,
      r_priority = None\<rparr>"

text \<open>An element of the oracle's list that has a type and nothing else.\<close>

definition malformed_proposal :: raw_action where
  "malformed_proposal =
     \<lparr>r_type = Some ''review_pr'', r_repo = None, r_number = None, r_title = None,
      r_body = None, r_priority = None\<rparr>"

definition one_pr_state :: snapshot where
  "one_pr_state =
     \<lparr>prs_items = [example_item ''webapp'' 12], open_items = [], processing_items = [],
      epics_items = []\<rparr>"

definition four_prs_state :: snapshot where
  "four_prs_state =
     \<lparr>prs_items = [example_item ''webapp'' 12, example_item ''webapp'' 13,
        example_item ''webapp'' 14, example_item ''webapp'' 15],
      open_items = [], processing_items = [], epics_items = []\<rparr>"

text \<open>Two behaviours of the external executor over the attempts of one action.\<close>

definition always_fails :: "nat \<Rightarrow> proc" where
  "always_fails n = Exits 10 1 [] ''boom''"

definition fails_then_hangs :: "nat \<Rightarrow> proc" where
  "fails_then_hangs n = (if n = 0 then Exits 599 1 [] ''boom'' else Exits 601 0 [] [])"


text \<open>
  Review actions whose executor fails after 599 seconds and, started again after the
  pause, outlives the timeout.
\<close>

definition one_slow_job :: "job list" where
  "one_slow_job = [(review_action (example_item ''webapp'' 12), fails_then_hangs)]"

definition two_slow_jobs :: "job list" where
  "two_slow_jobs =
     [(review_action (example_item ''webapp'' 12), fails_then_hangs),
      (review_action (example_item ''webapp'' 13), fails_then_hangs)]"

text \<open>
  A state with five pull requests, two tasks and two epics, the keys of the first item
  of each list, and the action that the enrichment makes of a proposed review.
\<close>

definition three_tier_state :: snapshot where
  "three_tier_state =
     \<lparr>prs_items = [example_item ''webapp'' 12, example_item ''webapp'' 13,
        example_item ''webapp'' 14, example_item ''webapp'' 15, example_item ''webapp'' 16],
      open_items = [example_item ''webapp'' 55, example_item ''webapp'' 56],
      processing_items = [],
      epics_items = [example_item ''webapp'' 5, example_item ''webapp'' 6]\<rparr>"

definition three_keys :: "action_key set" where
  "three_keys = {(''review_pr'', ''webapp'', 12), (''implement_task'', ''webapp'', 55),
     (''decompose_epic'', ''webapp'', 5)}"

definition enriched_review :: "int \<Rightarrow> action" where
  "enriched_review n =
     \<lparr>act_type = ''review_pr'', act_repo = ''webapp'', act_number = n,
      act_title = Some ''title'', act_body = None, act_priority = None\<rparr>"

section \<open>The deterministic fallback: budget, distinct keys, tiers\<close>

lemma scan_tier_inv:
  "scan_tier mk K its acts cur = (r, acts', cur') \<Longrightarrow>
   \<exists>sel. acts' = acts @ map mk sel \<and> subseq sel its
      \<and> distinct (map (\<lambda>i. action_key (mk i)) sel)
      \<and> (\<lambda>i. action_key (mk i)) ` set sel \<inter> cur = {}
      \<and> (\<lambda>i. action_key (mk i)) ` set sel \<subseteq> cur' \<and> cur \<subseteq> cur'"
proof (induction its arbitrary: acts cur)
  case Nil
  then show ?case by auto
next
  case (Cons it its)
  show ?case
  proof (cases "action_key (mk it) \<in> cur")
    case True
    with Cons.prems have "scan_tier mk K its acts cur = (r, acts', cur')"
      by (simp add: can_process_action_def)
    from Cons.IH[OF this] obtain sel where s: "acts' = acts @ map mk sel" "subseq sel its"
      "distinct (map (\<lambda>i. action_key (mk i)) sel)"
      "(\<lambda>i. action_key (mk i)) ` set sel \<inter> cur = {}"
      "(\<lambda>i. action_key (mk i)) ` set sel \<subseteq> cur'" "cur \<subseteq> cur'" by blast
    from s(2) have "subseq sel (it # its)" by (rule list_emb_Cons)
    with s show ?thesis by blast
  next
    case False
    show ?thesis
    proof (cases "K \<le> Suc (length acts)")
      case True
      with False Cons.prems have "acts' = acts @ map mk [it]" "cur' = insert (action_key (mk it)) cur"
        by (auto simp: can_process_action_def)
      moreover have "subseq [it] (it # its)" by simp
      ultimately show ?thesis using False by (intro exI[of _ "[it]"]) auto
    next
      case K: False
      with False Cons.prems
      have "scan_tier mk K its (acts @ [mk it]) (insert (action_key (mk it)) cur) = (r, acts', cur')"
        by (simp add: can_process_action_def)
      from Cons.IH[OF this] obtain sel where s: "acts' = (acts @ [mk it]) @ map mk sel" "subseq sel its"
        "distinct (map (\<lambda>i. action_key (mk i)) sel)"
        "(\<lambda>i. action_key (mk i)) ` set sel \<inter> insert (action_key (mk it)) cur = {}"
        "(\<lambda>i. action_key (mk i)) ` set sel \<subseteq> cur'" "insert (action_key (mk it)) cur \<subseteq> cur'" by blast
      have "subseq (it # sel) (it # its)" using s(2) by simp
      with s False show ?thesis by (intro exI[of _ "it # sel"]) auto
    qed
  qed
qed

lemma scan_tier_length:
  "scan_tier mk K its acts cur = (r, acts', cur') \<Longrightarrow> length acts < K \<Longrightarrow>
   length acts' \<le> K \<and> (\<not> r \<longrightarrow> length acts' < K)"
proof (induction its arbitrary: acts cur)
  case Nil
  then show ?case by auto
next
  case (Cons it its)
  then show ?case
    by (auto simp: can_process_action_def Let_def split: if_splits)
qed

lemma subseq_take: "subseq sel (take n xs) \<Longrightarrow> subseq sel xs"
  by (metis append_take_drop_id list_emb_prefix)

lemma tier_keys_disjoint:
  "action_key (review_action p) \<noteq> action_key (implement_action t)"
  "action_key (review_action p) \<noteq> action_key (decompose_action e)"
  "action_key (implement_action t) \<noteq> action_key (decompose_action e)"
  by (simp_all add: action_key_def review_action_def implement_action_def decompose_action_def)

lemma simple_decision_logic_inv:
  assumes "simple_decision_logic K state cur = (acts, cur')"
  shows "length acts \<le> K \<and> distinct (map action_key acts) \<and> tiered state acts
     \<and> action_key ` set acts \<inter> cur = {} \<and> action_key ` set acts \<subseteq> cur' \<and> cur \<subseteq> cur'"
proof -
  obtain r1 a1 c1 where t1:
    "scan_tier review_action K (take K (prs_items state)) [] cur = (r1, a1, c1)"
    by (metis prod_cases3)
  obtain r2 a2 c2 where t2:
    "scan_tier implement_action K (take (K - length a1) (open_items state)) a1 c1 = (r2, a2, c2)"
    by (metis prod_cases3)
  obtain r3 a3 c3 where t3:
    "scan_tier decompose_action K (take (K - length a2) (epics_items state)) a2 c2 = (r3, a3, c3)"
    by (metis prod_cases3)
  from scan_tier_inv[OF t1] obtain ps where ps: "a1 = map review_action ps"
    "subseq ps (take K (prs_items state))"
    "distinct (map (\<lambda>i. action_key (review_action i)) ps)"
    "(\<lambda>i. action_key (review_action i)) ` set ps \<inter> cur = {}"
    "(\<lambda>i. action_key (review_action i)) ` set ps \<subseteq> c1" "cur \<subseteq> c1" by auto
  from scan_tier_inv[OF t2] obtain ts where ts: "a2 = a1 @ map implement_action ts"
    "subseq ts (take (K - length a1) (open_items state))"
    "distinct (map (\<lambda>i. action_key (implement_action i)) ts)"
    "(\<lambda>i. action_key (implement_action i)) ` set ts \<inter> c1 = {}"
    "(\<lambda>i. action_key (implement_action i)) ` set ts \<subseteq> c2" "c1 \<subseteq> c2" by auto
  from scan_tier_inv[OF t3] obtain es where es: "a3 = a2 @ map decompose_action es"
    "subseq es (take (K - length a2) (epics_items state))"
    "distinct (map (\<lambda>i. action_key (decompose_action i)) es)"
    "(\<lambda>i. action_key (decompose_action i)) ` set es \<inter> c2 = {}"
    "(\<lambda>i. action_key (decompose_action i)) ` set es \<subseteq> c3" "c2 \<subseteq> c3" by auto
  have l1: "length a1 \<le> K \<and> (\<not> r1 \<longrightarrow> length a1 < K \<or> K = 0 \<and> a1 = [])"
  proof (cases "K = 0")
    case True
    with t1 show ?thesis by simp
  next
    case False
    with scan_tier_length[OF t1] show ?thesis by simp
  qed
  have l2: "\<not> r1 \<Longrightarrow> length a2 \<le> K \<and> (\<not> r2 \<longrightarrow> length a2 < K \<or> K = 0 \<and> a2 = [])"
  proof (cases "length a1 < K")
    case True
    with scan_tier_length[OF t2] show ?thesis by simp
  next
    case False
    assume "\<not> r1"
    with False l1 have "K = 0" "a1 = []" by auto
    with t2 show ?thesis by simp
  qed
  have l3: "\<not> r1 \<Longrightarrow> \<not> r2 \<Longrightarrow> length a3 \<le> K"
  proof (cases "length a2 < K")
    case True
    with scan_tier_length[OF t3] show ?thesis by simp
  next
    case False
    assume "\<not> r1" "\<not> r2"
    with False l2 have "K = 0" "a2 = []" by auto
    with t3 show ?thesis by simp
  qed
  have sp: "subseq ps (prs_items state)" using ps(2) by (rule subseq_take)
  have st: "subseq ts (open_items state)" using ts(2) by (rule subseq_take)
  have se: "subseq es (epics_items state)" using es(2) by (rule subseq_take)
  have d1: "distinct (map action_key a1)" using ps(1,3) by (simp add: comp_def)
  have d2: "distinct (map action_key a2)"
    using d1 ts(1,3,4) ps(1,5) by (auto simp: comp_def)
  have k1: "action_key ` set a1 \<inter> cur = {}" "action_key ` set a1 \<subseteq> c1"
    using ps by auto
  have k2: "action_key ` set a2 \<inter> cur = {}" "action_key ` set a2 \<subseteq> c2"
    using k1 ts ps(6) by auto
  have "action_key ` set a2 \<inter> (\<lambda>i. action_key (decompose_action i)) ` set es = {}"
    using k2(2) es(4) by blast
  then have d3: "distinct (map action_key a3)"
    using d2 es(1,3) by (auto simp: comp_def)
  have i3: "action_key ` set a3 =
      action_key ` set a2 \<union> (\<lambda>i. action_key (decompose_action i)) ` set es"
    using es(1) by (simp add: image_Un image_image)
  have "cur \<subseteq> c2" using ps(6) ts(6) by blast
  then have k3: "action_key ` set a3 \<inter> cur = {}" "action_key ` set a3 \<subseteq> c3"
    unfolding i3 using k2 es(4,5,6) by blast+
  have T1: "tiered state a1"
    unfolding tiered_def using ps(1) sp
    by (intro exI[of _ ps] exI[of _ "[]"]) simp
  have T2: "tiered state a2"
    unfolding tiered_def using ps(1) ts(1) sp st
    by (intro exI[of _ ps] exI[of _ ts] exI[of _ "[]"]) simp
  have T3: "tiered state a3"
    unfolding tiered_def using ps(1) ts(1) es(1) sp st se
    by (intro exI[of _ ps] exI[of _ ts] exI[of _ es]) simp
  show ?thesis
  proof (cases r1)
    case True
    with assms t1 have "acts = a1" "cur' = c1" by (simp_all add: simple_decision_logic_def)
    with l1 d1 T1 k1 ps(6) show ?thesis by simp
  next
    case r1: False
    show ?thesis
    proof (cases r2)
      case True
      with r1 assms t1 t2 have "acts = a2" "cur' = c2"
        by (simp_all add: simple_decision_logic_def)
      with l2[OF r1] d2 T2 k2 ps(6) ts(6) show ?thesis by auto
    next
      case False
      with r1 assms t1 t2 t3 have "acts = a3" "cur' = c3"
        by (simp_all add: simple_decision_logic_def)
      with l3[OF r1 False] d3 T3 k3 ps(6) ts(6) es(6) show ?thesis by auto
    qed
  qed
qed

text \<open>
  C1. Whatever the state, the budget \<open>K\<close> and the tracker, the fallback returns at most
  \<open>K\<close> actions with pairwise distinct keys, all review actions before all implement
  actions before all decompose actions, each group in the order of the snapshot.
\<close>

theorem simple_decision_logic_tiers:
  "length (fst (simple_decision_logic K state cur)) \<le> K
   \<and> distinct (map action_key (fst (simple_decision_logic K state cur)))
   \<and> (\<exists>ps ts es.
        fst (simple_decision_logic K state cur) =
          map review_action ps @ map implement_action ts @ map decompose_action es
        \<and> subseq ps (prs_items state) \<and> subseq ts (open_items state)
        \<and> subseq es (epics_items state))"
proof -
  obtain acts cur' where r: "simple_decision_logic K state cur = (acts, cur')"
    by (cases "simple_decision_logic K state cur")
  from simple_decision_logic_inv[OF r] show ?thesis
    unfolding r tiered_def by simp
qed

section \<open>The decision engine: no duplicate key, no invented target\<close>

lemma find_item_Some:
  "find_item a items = Inr (Some (r, n, it)) \<Longrightarrow>
   it \<in> set items \<and> item_repo it = r \<and> item_number it = n"
  by (induction items) (auto split: option.splits if_splits)

lemma find_item_None:
  "r_repo a = Some r \<Longrightarrow> r_number a = Some n \<Longrightarrow>
   \<not> list_ex (\<lambda>i. item_repo i = r \<and> item_number i = n) items \<Longrightarrow>
   find_item a items = Inr None"
  by (induction items) auto

lemma find_item_ex:
  "find_item a items = Inr (Some (r, n, it)) \<Longrightarrow>
   list_ex (\<lambda>i. item_repo i = r \<and> item_number i = n) items"
  using find_item_Some[of a items r n it] by (auto simp: list_ex_iff)

lemma enrich_action_target:
  assumes "enrich_action a state = Inr (Some en)"
  shows "target_in state (action_key en)"
proof -
  from assms obtain t where t: "r_type a = Some t"
    by (cases "r_type a") (simp_all add: enrich_action_def)
  consider (rev) "t = ''review_pr''" | (imp) "t = ''implement_task''"
    | (dec) "t = ''decompose_epic''" | (mon) "t = ''monitor_task''"
    | (other) "t \<noteq> ''review_pr''" "t \<noteq> ''implement_task''" "t \<noteq> ''decompose_epic''"
        "t \<noteq> ''monitor_task''" by blast
  then show ?thesis
  proof cases
    case rev
    with assms t obtain r n it where "find_item a (prs_items state) = Inr (Some (r, n, it))"
      "action_key en = (t, r, n)"
      by (auto simp: enrich_action_def action_key_def split: sum.splits option.splits)
    with rev show ?thesis by (simp add: target_in_def find_item_ex)
  next
    case imp
    with assms t obtain r n it where "find_item a (open_items state) = Inr (Some (r, n, it))"
      "action_key en = (t, r, n)"
      by (auto simp: enrich_action_def action_key_def split: sum.splits option.splits)
    with imp show ?thesis by (simp add: target_in_def find_item_ex)
  next
    case dec
    with assms t obtain r n it where "find_item a (epics_items state) = Inr (Some (r, n, it))"
      "action_key en = (t, r, n)"
      by (auto simp: enrich_action_def action_key_def split: sum.splits option.splits)
    with dec show ?thesis by (simp add: target_in_def find_item_ex)
  next
    case mon
    with assms t obtain r n it where
      "find_item a (processing_items state) = Inr (Some (r, n, it))"
      "action_key en = (t, r, n)"
      by (auto simp: enrich_action_def action_key_def split: sum.splits option.splits)
    with mon show ?thesis by (simp add: target_in_def find_item_ex)
  next
    case other
    with assms t show ?thesis by (simp add: enrich_action_def)
  qed
qed

lemma enrich_all_inv:
  "enrich_all state raws acc cur = (res, cur') \<Longrightarrow>
   cur \<subseteq> cur' \<and>
   (\<forall>out. res = Inr out \<longrightarrow>
      (\<exists>new. out = acc @ new \<and> distinct (map action_key new)
         \<and> action_key ` set new \<inter> cur = {} \<and> action_key ` set new \<subseteq> cur'
         \<and> (\<forall>x\<in>set new. target_in state (action_key x))))"
proof (induction raws arbitrary: acc cur)
  case Nil
  then show ?case by auto
next
  case (Cons a raws)
  show ?case
  proof (cases "enrich_action a state")
    case (Inl e)
    with Cons.prems show ?thesis by auto
  next
    case (Inr eo)
    show ?thesis
    proof (cases eo)
      case None
      with Inr Cons.prems have "enrich_all state raws acc cur = (res, cur')" by simp
      from Cons.IH[OF this] show ?thesis .
    next
      case (Some en)
      note tg = enrich_action_target[OF Inr[unfolded Some]]
      show ?thesis
      proof (cases "action_key en \<in> cur")
        case True
        with Inr Some Cons.prems have "enrich_all state raws acc cur = (res, cur')"
          by (simp add: can_process_action_def)
        from Cons.IH[OF this] show ?thesis .
      next
        case False
        with Inr Some Cons.prems
        have "enrich_all state raws (acc @ [en]) (insert (action_key en) cur) = (res, cur')"
          by (simp add: can_process_action_def)
        from Cons.IH[OF this] have sub: "insert (action_key en) cur \<subseteq> cur'"
          and ex: "\<forall>out. res = Inr out \<longrightarrow>
            (\<exists>new. out = (acc @ [en]) @ new \<and> distinct (map action_key new)
              \<and> action_key ` set new \<inter> insert (action_key en) cur = {}
              \<and> action_key ` set new \<subseteq> cur'
              \<and> (\<forall>x\<in>set new. target_in state (action_key x)))" by auto
        have "\<exists>new. out = acc @ new \<and> distinct (map action_key new)
              \<and> action_key ` set new \<inter> cur = {} \<and> action_key ` set new \<subseteq> cur'
              \<and> (\<forall>x\<in>set new. target_in state (action_key x))" if "res = Inr out" for out
        proof -
          from ex that obtain new where n: "out = (acc @ [en]) @ new"
            "distinct (map action_key new)"
            "action_key ` set new \<inter> insert (action_key en) cur = {}"
            "action_key ` set new \<subseteq> cur'"
            "\<forall>x\<in>set new. target_in state (action_key x)" by blast
          show ?thesis
            using n sub False tg by (intro exI[of _ "en # new"]) auto
        qed
        with sub show ?thesis by blast
      qed
    qed
  qed
qed

lemma subseq_set_subset: "subseq xs ys \<Longrightarrow> set xs \<subseteq> set ys"
  by (induction rule: list_emb.induct) auto

lemma target_review:
  "p \<in> set (prs_items state) \<Longrightarrow> target_in state (action_key (review_action p))"
  by (simp add: target_in_def action_key_def review_action_def list_ex_iff) blast

lemma target_implement:
  "p \<in> set (open_items state) \<Longrightarrow> target_in state (action_key (implement_action p))"
  by (simp add: target_in_def action_key_def implement_action_def list_ex_iff) blast

lemma target_decompose:
  "p \<in> set (epics_items state) \<Longrightarrow> target_in state (action_key (decompose_action p))"
  by (simp add: target_in_def action_key_def decompose_action_def list_ex_iff) blast

lemma tiered_target:
  assumes "tiered state acts" "x \<in> set acts"
  shows "target_in state (action_key x)"
proof -
  from assms(1) obtain ps ts es where
    a: "acts = map review_action ps @ map implement_action ts @ map decompose_action es"
    and s: "subseq ps (prs_items state)" "subseq ts (open_items state)"
      "subseq es (epics_items state)"
    unfolding tiered_def by blast
  have sub: "set ps \<subseteq> set (prs_items state)" "set ts \<subseteq> set (open_items state)"
    "set es \<subseteq> set (epics_items state)"
    using s by (simp_all add: subseq_set_subset)
  from assms(2) have "x \<in> review_action ` set ps \<or> x \<in> implement_action ` set ts
      \<or> x \<in> decompose_action ` set es"
    unfolding a by simp
  then show ?thesis
    using sub target_review target_implement target_decompose by blast
qed

lemma decide_actions_inv:
  assumes "decide_actions K ollama state cur = (acts, cur')"
  shows "distinct (map action_key acts) \<and> action_key ` set acts \<inter> cur = {}
     \<and> action_key ` set acts \<subseteq> cur' \<and> cur \<subseteq> cur'
     \<and> (\<forall>x\<in>set acts. target_in state (action_key x))"
proof -
  have fb: ?thesis if "simple_decision_logic K state c = (acts, cur')" "cur \<subseteq> c" for c
  proof -
    from simple_decision_logic_inv[OF that(1)]
    have "distinct (map action_key acts)" "tiered state acts"
      "action_key ` set acts \<inter> c = {}" "action_key ` set acts \<subseteq> cur'" "c \<subseteq> cur'"
      by simp_all
    moreover from this(2) have "\<forall>x\<in>set acts. target_in state (action_key x)"
      by (blast intro: tiered_target)
    ultimately show ?thesis using that(2) by blast
  qed
  show ?thesis
  proof (cases ollama)
    case None
    with assms fb[of cur] show ?thesis by (simp add: decide_actions_def)
  next
    case (Some reply)
    show ?thesis
    proof (cases reply)
      case Raises
      with Some assms fb[of cur] show ?thesis by (simp add: decide_actions_def)
    next
      case (Decision actions)
      obtain res c where e: "enrich_all state (take K actions) [] cur = (res, c)"
        by (cases "enrich_all state (take K actions) [] cur")
      from enrich_all_inv[OF e] have sub: "cur \<subseteq> c"
        and ok: "\<And>out. res = Inr out \<Longrightarrow>
          \<exists>new. out = [] @ new \<and> distinct (map action_key new)
            \<and> action_key ` set new \<inter> cur = {} \<and> action_key ` set new \<subseteq> c
            \<and> (\<forall>x\<in>set new. target_in state (action_key x))"
        by simp_all
      show ?thesis
      proof (cases res)
        case (Inl ex)
        with Some Decision e assms have "simple_decision_logic K state c = (acts, cur')"
          by (simp add: decide_actions_def)
        then show ?thesis using sub by (rule fb)
      next
        case (Inr out)
        with Some Decision e assms have eq: "acts = out" "cur' = c"
          by (simp_all add: decide_actions_def)
        from ok[OF Inr] show ?thesis unfolding eq using sub by simp
      qed
    qed
  qed
qed

section \<open>Both strategies admit by first occurrence\<close>

lemma first_admitted_Nil: "first_admitted cur [] = []"
  by (simp add: first_admitted_def)

lemma filter_enumerate_Suc:
  "map snd (filter (\<lambda>(i, c). P i c) (enumerate (Suc n) cs)) =
   map snd (filter (\<lambda>(i, c). P (Suc i) c) (enumerate n cs))"
proof -
  have "enumerate (Suc n) cs = map (apfst Suc) (enumerate n cs)"
    by (rule enumerate_Suc_eq)
  then show ?thesis
    by (simp add: filter_map comp_def case_prod_unfold)
qed

lemma first_admitted_Cons:
  "first_admitted cur (c # cs) =
     (if action_key c \<in> cur then first_admitted cur cs
      else c # first_admitted (insert (action_key c) cur) cs)"
proof -
  have "map snd (filter (\<lambda>(i, x). action_key x \<notin> cur
                 \<and> action_key x \<notin> action_key ` set (take i (c # cs)))
        (enumerate (Suc 0) cs)) =
      map snd (filter (\<lambda>(i, x). action_key x \<notin> cur
                 \<and> action_key x \<notin> action_key ` set (take (Suc i) (c # cs)))
        (enumerate 0 cs))"
    by (rule filter_enumerate_Suc
        [of "\<lambda>i x. action_key x \<notin> cur \<and> action_key x \<notin> action_key ` set (take i (c # cs))"])
  also have "filter (\<lambda>(i, x). action_key x \<notin> cur
                 \<and> action_key x \<notin> action_key ` set (take (Suc i) (c # cs)))
        (enumerate 0 cs) =
      filter (\<lambda>(i, x). action_key x \<notin> insert (action_key c) cur
                 \<and> action_key x \<notin> action_key ` set (take i cs))
        (enumerate 0 cs)"
    by (rule filter_cong) auto
  finally have rest: "map snd (filter (\<lambda>(i, x). action_key x \<notin> cur
                 \<and> action_key x \<notin> action_key ` set (take i (c # cs)))
        (enumerate (Suc 0) cs)) = first_admitted (insert (action_key c) cur) cs"
    by (simp add: first_admitted_def)
  show ?thesis
  proof (cases "action_key c \<in> cur")
    case True
    then have "insert (action_key c) cur = cur" by blast
    with rest True show ?thesis by (simp add: first_admitted_def)
  next
    case False
    with rest show ?thesis by (simp add: first_admitted_def)
  qed
qed

lemma length_first_admitted: "length (first_admitted cur cs) \<le> length cs"
  by (induction cs arbitrary: cur) (simp_all add: first_admitted_Nil first_admitted_Cons le_SucI)

lemma scan_tier_True:
  "scan_tier mk K its acts cur = (True, acts', cur') \<Longrightarrow> K \<le> length acts'"
  by (induction its arbitrary: acts cur)
    (auto simp: can_process_action_def Let_def split: if_splits)

lemma scan_tier_first_admitted:
  "length acts + length its \<le> K \<Longrightarrow>
   snd (scan_tier mk K its acts cur) =
     (acts @ first_admitted cur (map mk its),
      cur \<union> action_key ` set (first_admitted cur (map mk its)))"
proof (induction its arbitrary: acts cur)
  case Nil
  then show ?case by (simp add: first_admitted_Nil)
next
  case (Cons it its)
  show ?case
  proof (cases "action_key (mk it) \<in> cur")
    case True
    from Cons.prems have "length acts + length its \<le> K" by simp
    from Cons.IH[OF this, of cur] True show ?thesis
      by (simp add: can_process_action_def first_admitted_Cons)
  next
    case False
    show ?thesis
    proof (cases "K \<le> Suc (length acts)")
      case True
      moreover from Cons.prems have "Suc (length acts + length its) \<le> K" by simp
      ultimately have "length its = 0" by arith
      then have "its = []" by simp
      with True False show ?thesis
        by (simp add: can_process_action_def first_admitted_Cons first_admitted_Nil)
    next
      case K: False
      from Cons.prems have "length (acts @ [mk it]) + length its \<le> K" by simp
      from Cons.IH[OF this, of "insert (action_key (mk it)) cur"] False K show ?thesis
        by (simp add: can_process_action_def first_admitted_Cons)
    qed
  qed
qed


lemma simple_decision_logic_closed_form:
  "simple_decision_logic K state cur =
     (let a1 = first_admitted cur (map review_action (take K (prs_items state)));
          c1 = cur \<union> action_key ` set a1;
          a2 = first_admitted c1
                 (map implement_action (take (K - length a1) (open_items state)));
          c2 = c1 \<union> action_key ` set a2;
          a3 = first_admitted c2
                 (map decompose_action (take (K - length (a1 @ a2)) (epics_items state)))
      in (a1 @ a2 @ a3, c2 \<union> action_key ` set a3))"
proof -
  define a1 where "a1 = first_admitted cur (map review_action (take K (prs_items state)))"
  define c1 where "c1 = cur \<union> action_key ` set a1"
  define a2 where "a2 = first_admitted c1
                 (map implement_action (take (K - length a1) (open_items state)))"
  define c2 where "c2 = c1 \<union> action_key ` set a2"
  define a3 where "a3 = first_admitted c2
                 (map decompose_action (take (K - length (a1 @ a2)) (epics_items state)))"
  have l1: "length a1 \<le> K"
    using length_first_admitted[of cur "map review_action (take K (prs_items state))"]
    by (simp add: a1_def)
  have "length a2 \<le> K - length a1"
    using length_first_admitted[of c1
        "map implement_action (take (K - length a1) (open_items state))"]
    by (simp add: a2_def)
  with l1 have l2: "length (a1 @ a2) \<le> K" by simp
  obtain r1 where t1: "scan_tier review_action K (take K (prs_items state)) [] cur
      = (r1, a1, c1)"
    using scan_tier_first_admitted[of "[]" "take K (prs_items state)" K review_action cur]
    by (cases "scan_tier review_action K (take K (prs_items state)) [] cur")
      (simp add: a1_def c1_def)
  obtain r2 where t2: "scan_tier implement_action K
      (take (K - length a1) (open_items state)) a1 c1 = (r2, a1 @ a2, c2)"
    using scan_tier_first_admitted[of a1 "take (K - length a1) (open_items state)" K
        implement_action c1] l1
    by (cases "scan_tier implement_action K (take (K - length a1) (open_items state)) a1 c1")
      (simp add: a2_def c2_def)
  obtain r3 where t3: "scan_tier decompose_action K
      (take (K - length (a1 @ a2)) (epics_items state)) (a1 @ a2) c2
      = (r3, (a1 @ a2) @ a3, c2 \<union> action_key ` set a3)"
    using scan_tier_first_admitted[of "a1 @ a2"
        "take (K - length (a1 @ a2)) (epics_items state)" K decompose_action c2] l2
    by (cases "scan_tier decompose_action K
        (take (K - length (a1 @ a2)) (epics_items state)) (a1 @ a2) c2")
      (simp add: a3_def)
  have e2: "a2 = []" "c2 = c1" if "K \<le> length a1"
    using that by (simp_all add: a2_def c2_def first_admitted_Nil)
  have e3: "a3 = []" if "K \<le> length (a1 @ a2)"
    using that by (simp add: a3_def first_admitted_Nil)
  have "simple_decision_logic K state cur = (a1 @ a2 @ a3, c2 \<union> action_key ` set a3)"
  proof (cases r1)
    case True
    with t1 have "K \<le> length a1" by (auto dest: scan_tier_True)
    with e2 e3 have "a2 = []" "a3 = []" "c2 = c1" by simp_all
    with True t1 show ?thesis by (simp add: simple_decision_logic_def)
  next
    case r1: False
    show ?thesis
    proof (cases r2)
      case True
      with t2 have "K \<le> length (a1 @ a2)" by (auto dest: scan_tier_True)
      with e3 have "a3 = []" by simp
      with True r1 t1 t2 show ?thesis by (simp add: simple_decision_logic_def)
    next
      case False
      with r1 t1 t2 t3 show ?thesis by (simp add: simple_decision_logic_def)
    qed
  qed
  then show ?thesis
    unfolding Let_def a3_def c2_def a2_def c1_def a1_def .
qed

lemma enrich_all_first_admitted:
  "list_all (\<lambda>a. \<not> isl (enrich_action a state)) raws \<Longrightarrow>
   enrich_all state raws acc cur =
     (Inr (acc @ first_admitted cur (candidates state raws)),
      cur \<union> action_key ` set (first_admitted cur (candidates state raws)))"
proof (induction raws arbitrary: acc cur)
  case Nil
  then show ?case by (simp add: candidates_def first_admitted_Nil map_filter_simps)
next
  case (Cons a raws)
  from Cons.prems have rest: "list_all (\<lambda>a. \<not> isl (enrich_action a state)) raws"
    and a: "\<not> isl (enrich_action a state)" by simp_all
  from a obtain eo where eo: "enrich_action a state = Inr eo"
    by (cases "enrich_action a state") simp_all
  show ?case
  proof (cases eo)
    case None
    with eo have "candidates state (a # raws) = candidates state raws"
      by (simp add: candidates_def map_filter_simps)
    with eo None Cons.IH[OF rest] show ?thesis by simp
  next
    case (Some en)
    with eo have c: "candidates state (a # raws) = en # candidates state raws"
      by (simp add: candidates_def map_filter_simps)
    show ?thesis
    proof (cases "action_key en \<in> cur")
      case True
      with eo Some c Cons.IH[OF rest, of acc cur] show ?thesis
        by (simp add: can_process_action_def first_admitted_Cons)
    next
      case False
      with eo Some c Cons.IH[OF rest, of "acc @ [en]" "insert (action_key en) cur"]
      show ?thesis
        by (simp add: can_process_action_def first_admitted_Cons)
    qed
  qed
qed


lemmas fa_simps = first_admitted_Nil first_admitted_Cons

lemma enrich_review_four:
  "n \<in> {12, 13} \<Longrightarrow>
   enrich_action (proposal ''review_pr'' ''webapp'' n) four_prs_state
     = Inr (Some (enriched_review n))"
  by (auto simp add: proposal_def four_prs_state_def example_item_def enrich_action_def
      enriched_review_def)

text \<open>
  C2. Whichever strategy ran and whatever the oracle proposed, the list returned by
  \<open>_decide_actions\<close> holds no key twice; a key that was already in the tracker is not
  returned, and every returned key is in the tracker when the list is returned. A
  collision drops the candidate and nothing else: when no proposal raises, the oracle
  path returns exactly the candidates whose key is neither in the tracker nor the key
  of an earlier candidate, and the fallback returns exactly such candidates of each
  tier's slice.
\<close>

theorem decide_actions_distinct_keys:
  "distinct (map action_key (fst (decide_actions K ollama state cur)))
   \<and> action_key ` set (fst (decide_actions K ollama state cur)) \<inter> cur = {}
   \<and> action_key ` set (fst (decide_actions K ollama state cur))
        \<subseteq> snd (decide_actions K ollama state cur)
   \<and> (list_all (\<lambda>a. \<not> isl (enrich_action a state)) (take K proposals) \<longrightarrow>
        decide_actions K (Some (Decision proposals)) state cur =
          (first_admitted cur (candidates state (take K proposals)),
           cur \<union> action_key ` set (first_admitted cur (candidates state (take K proposals)))))
   \<and> decide_actions K None state cur =
     (let a1 = first_admitted cur (map review_action (take K (prs_items state)));
          c1 = cur \<union> action_key ` set a1;
          a2 = first_admitted c1
                 (map implement_action (take (K - length a1) (open_items state)));
          c2 = c1 \<union> action_key ` set a2;
          a3 = first_admitted c2
                 (map decompose_action (take (K - length (a1 @ a2)) (epics_items state)))
      in (a1 @ a2 @ a3, c2 \<union> action_key ` set a3))"
proof -
  obtain acts cur' where r: "decide_actions K ollama state cur = (acts, cur')"
    by (cases "decide_actions K ollama state cur")
  from decide_actions_inv[OF r]
  have "distinct (map action_key (fst (decide_actions K ollama state cur)))
   \<and> action_key ` set (fst (decide_actions K ollama state cur)) \<inter> cur = {}
   \<and> action_key ` set (fst (decide_actions K ollama state cur))
        \<subseteq> snd (decide_actions K ollama state cur)"
    unfolding r by simp
  moreover have "decide_actions K (Some (Decision proposals)) state cur =
          (first_admitted cur (candidates state (take K proposals)),
           cur \<union> action_key ` set (first_admitted cur (candidates state (take K proposals))))"
    if "list_all (\<lambda>a. \<not> isl (enrich_action a state)) (take K proposals)"
    using enrich_all_first_admitted[OF that, of "[]" cur]
    by (simp add: decide_actions_def)
  moreover have "decide_actions K None state cur =
     (let a1 = first_admitted cur (map review_action (take K (prs_items state)));
          c1 = cur \<union> action_key ` set a1;
          a2 = first_admitted c1
                 (map implement_action (take (K - length a1) (open_items state)));
          c2 = c1 \<union> action_key ` set a2;
          a3 = first_admitted c2
                 (map decompose_action (take (K - length (a1 @ a2)) (epics_items state)))
      in (a1 @ a2 @ a3, c2 \<union> action_key ` set a3))"
    using simple_decision_logic_closed_form[of K state cur]
    by (simp add: decide_actions_def)
  ultimately show ?thesis by blast
qed

theorem decide_actions_distinct_keys_witness:
  "\<not> isl (enrich_action (proposal ''review_pr'' ''webapp'' 12) four_prs_state)
   \<and> \<not> isl (enrich_action (proposal ''review_pr'' ''webapp'' 13) four_prs_state)
   \<and> fst (decide_actions 3 (Some (Decision [proposal ''review_pr'' ''webapp'' 12,
        proposal ''review_pr'' ''webapp'' 12, proposal ''review_pr'' ''webapp'' 13]))
        four_prs_state {}) = [enriched_review 12, enriched_review 13]"
proof -
  have e: "enrich_action (proposal ''review_pr'' ''webapp'' 12) four_prs_state
      = Inr (Some (enriched_review 12))"
    "enrich_action (proposal ''review_pr'' ''webapp'' 13) four_prs_state
      = Inr (Some (enriched_review 13))"
    by (simp_all add: enrich_review_four)
  have h: "list_all (\<lambda>a. \<not> isl (enrich_action a four_prs_state))
      (take 3 [proposal ''review_pr'' ''webapp'' 12,
        proposal ''review_pr'' ''webapp'' 12, proposal ''review_pr'' ''webapp'' 13])"
    by (simp add: e)
  have c: "candidates four_prs_state (take 3 [proposal ''review_pr'' ''webapp'' 12,
        proposal ''review_pr'' ''webapp'' 12, proposal ''review_pr'' ''webapp'' 13])
      = [enriched_review 12, enriched_review 12, enriched_review 13]"
    by (simp add: candidates_def map_filter_simps e)
  have f: "first_admitted {} [enriched_review 12, enriched_review 12, enriched_review 13]
      = [enriched_review 12, enriched_review 13]"
    by (simp add: fa_simps enriched_review_def action_key_def)
  from decide_actions_distinct_keys[of 3 None four_prs_state "{}"
      "[proposal ''review_pr'' ''webapp'' 12,
        proposal ''review_pr'' ''webapp'' 12, proposal ''review_pr'' ''webapp'' 13]"] h
  have "decide_actions 3 (Some (Decision [proposal ''review_pr'' ''webapp'' 12,
        proposal ''review_pr'' ''webapp'' 12, proposal ''review_pr'' ''webapp'' 13]))
        four_prs_state {} =
      (first_admitted {} (candidates four_prs_state (take 3
         [proposal ''review_pr'' ''webapp'' 12,
          proposal ''review_pr'' ''webapp'' 12, proposal ''review_pr'' ''webapp'' 13])),
       {} \<union> action_key ` set (first_admitted {} (candidates four_prs_state (take 3
         [proposal ''review_pr'' ''webapp'' 12,
          proposal ''review_pr'' ''webapp'' 12, proposal ''review_pr'' ''webapp'' 13]))))"
    by blast
  then show ?thesis unfolding c f by (simp add: e)
qed

lemma enrich_action_None:
  assumes "r_type a = Some t" "r_repo a = Some r" "r_number a = Some n"
    "\<not> target_in state (t, r, n)"
  shows "enrich_action a state = Inr None"
proof -
  have "find_item a items = Inr None"
    if "\<not> list_ex (\<lambda>i. item_repo i = r \<and> item_number i = n) items" for items
    using assms(2,3) that by (rule find_item_None)
  with assms(1,4) show ?thesis
    by (simp add: enrich_action_def target_in_def split: if_splits)
qed

text \<open>
  C8. A proposal whose type, repository and number have no item in the list searched
  for that type is turned into nothing by the enrichment, and no action with that key
  is in the list returned by \<open>_decide_actions\<close>, whatever else the oracle does.
\<close>

theorem unresolved_proposal_dropped:
  assumes "r_type a = Some t" "r_repo a = Some r" "r_number a = Some n"
    "\<not> target_in state (t, r, n)"
  shows "enrich_action a state = Inr None
    \<and> (t, r, n) \<notin> action_key ` set (fst (decide_actions K ollama state cur))"
proof -
  obtain acts cur' where d: "decide_actions K ollama state cur = (acts, cur')"
    by (cases "decide_actions K ollama state cur")
  from decide_actions_inv[OF d] have "\<forall>x\<in>set acts. target_in state (action_key x)"
    by simp
  with assms(4) have "(t, r, n) \<notin> action_key ` set acts" by auto
  with enrich_action_None[OF assms] show ?thesis unfolding d by simp
qed

theorem unresolved_proposal_dropped_witness:
  "r_type (proposal ''review_pr'' ''webapp'' 99) = Some ''review_pr''
   \<and> r_repo (proposal ''review_pr'' ''webapp'' 99) = Some ''webapp''
   \<and> r_number (proposal ''review_pr'' ''webapp'' 99) = Some 99
   \<and> \<not> target_in one_pr_state (''review_pr'', ''webapp'', 99)
   \<and> enrich_action (proposal ''review_pr'' ''webapp'' 99) one_pr_state = Inr None
   \<and> (''review_pr'', ''webapp'', 99) \<notin> action_key ` set (fst (decide_actions 3
        (Some (Decision [proposal ''review_pr'' ''webapp'' 99,
           proposal ''review_pr'' ''webapp'' 12])) one_pr_state {}))"
proof -
  have h1: "r_type (proposal ''review_pr'' ''webapp'' 99) = Some ''review_pr''"
    and h2: "r_repo (proposal ''review_pr'' ''webapp'' 99) = Some ''webapp''"
    and h3: "r_number (proposal ''review_pr'' ''webapp'' 99) = Some 99"
    by (simp_all add: proposal_def)
  have h4: "\<not> target_in one_pr_state (''review_pr'', ''webapp'', 99)"
    by (simp add: target_in_def one_pr_state_def example_item_def)
  from unresolved_proposal_dropped[OF h1 h2 h3 h4] h1 h2 h3 h4 show ?thesis by blast
qed

section \<open>The fallback after a failure of the oracle\<close>

lemma decide_actions_oracle_unset:
  "decide_actions K None state cur = simple_decision_logic K state cur"
  by (simp add: decide_actions_def)

lemma decide_actions_call_raises:
  "decide_actions K (Some Raises) state cur = simple_decision_logic K state cur"
  by (simp add: decide_actions_def)

text \<open>
  C3. The oracle replies with a list of two elements for a state with the single pull
  request webapp#12: a review of webapp#12, then an element that has no \<open>repo\<close>. The
  first is admitted and its key registered; the second raises, the admitted action is
  lost and the fallback runs on the tracker that already holds the key. The engine
  returns no action, where the fallback on the tracker of the start of the cycle
  returns the review of webapp#12.
\<close>

theorem decide_actions_after_late_oracle_failure:
  "fst (decide_actions 3 (Some (Decision [proposal ''review_pr'' ''webapp'' 12,
      malformed_proposal])) one_pr_state {}) = []
   \<and> fst (simple_decision_logic 3 one_pr_state {}) =
      [review_action (example_item ''webapp'' 12)]"
  by (simp add: decide_actions_def proposal_def malformed_proposal_def one_pr_state_def
    example_item_def enrich_action_def can_process_action_def action_key_def
    simple_decision_logic_def review_action_def)

section \<open>The slice is taken before the dedup check\<close>

lemma four_prs_fallback:
  "simple_decision_logic 3 four_prs_state {(''review_pr'', ''webapp'', 12)} =
    ([review_action (example_item ''webapp'' 13), review_action (example_item ''webapp'' 14)],
     {(''review_pr'', ''webapp'', 12), (''review_pr'', ''webapp'', 13),
      (''review_pr'', ''webapp'', 14)})"
  by (auto simp add: four_prs_state_def example_item_def can_process_action_def
    action_key_def simple_decision_logic_def review_action_def)

text \<open>
  A tracker that already holds a key when the fallback starts arises within one cycle:
  the oracle proposes the first pull request, then an element that raises.
\<close>

lemma four_prs_after_oracle_failure:
  "fst (decide_actions 3 (Some (Decision [proposal ''review_pr'' ''webapp'' 12,
      malformed_proposal])) four_prs_state {}) =
    [review_action (example_item ''webapp'' 13), review_action (example_item ''webapp'' 14)]"
proof -
  have "enrich_all four_prs_state
      (take 3 [proposal ''review_pr'' ''webapp'' 12, malformed_proposal]) [] {} =
      (Inl (KeyError ''repo''), {(''review_pr'', ''webapp'', 12)})"
    by (simp add: proposal_def malformed_proposal_def four_prs_state_def example_item_def
        enrich_action_def can_process_action_def action_key_def)
  then show ?thesis
    by (simp add: decide_actions_def four_prs_fallback)
qed

lemma three_tier_fallback:
  "simple_decision_logic 4 three_tier_state three_keys =
    ([review_action (example_item ''webapp'' 13), review_action (example_item ''webapp'' 14),
      review_action (example_item ''webapp'' 15)],
     three_keys \<union> {(''review_pr'', ''webapp'', 13), (''review_pr'', ''webapp'', 14),
       (''review_pr'', ''webapp'', 15)})"
  by (auto simp add: simple_decision_logic_closed_form three_tier_state_def three_keys_def
      example_item_def action_key_def review_action_def implement_action_def
      decompose_action_def fa_simps Let_def)

lemma three_tier_after_oracle_failure:
  "decide_actions 4 (Some (Decision [proposal ''review_pr'' ''webapp'' 12,
      proposal ''implement_task'' ''webapp'' 55, proposal ''decompose_epic'' ''webapp'' 5,
      malformed_proposal])) three_tier_state {} =
   simple_decision_logic 4 three_tier_state three_keys"
proof -
  have "enrich_all three_tier_state
      (take 4 [proposal ''review_pr'' ''webapp'' 12,
      proposal ''implement_task'' ''webapp'' 55, proposal ''decompose_epic'' ''webapp'' 5,
      malformed_proposal]) [] {} = (Inl (KeyError ''repo''), three_keys)"
    by (auto simp add: proposal_def malformed_proposal_def three_tier_state_def
        example_item_def enrich_action_def can_process_action_def action_key_def
        three_keys_def)
  then show ?thesis
    by (simp add: decide_actions_def)
qed


text \<open>
  C10. In each tier the fallback first takes the slice of the remaining budget, then
  admits by first occurrence within the slice. There are a state, a budget and a
  tracker for which it returns fewer actions than the budget while every tier is
  starved: an examined item was dropped by the dedup check, and an item after the
  slice, whose key is not in the tracker, was never examined.
\<close>

theorem fallback_slices_before_dedup:
  "simple_decision_logic K state cur =
     (let a1 = first_admitted cur (map review_action (take K (prs_items state)));
          c1 = cur \<union> action_key ` set a1;
          a2 = first_admitted c1
                 (map implement_action (take (K - length a1) (open_items state)));
          c2 = c1 \<union> action_key ` set a2;
          a3 = first_admitted c2
                 (map decompose_action (take (K - length (a1 @ a2)) (epics_items state)))
      in (a1 @ a2 @ a3, c2 \<union> action_key ` set a3))
   \<and> (\<exists>s k c a1 a2.
         a1 = first_admitted c (map review_action (take k (prs_items s)))
       \<and> a2 = first_admitted (c \<union> action_key ` set a1)
                 (map implement_action (take (k - length a1) (open_items s)))
       \<and> length (fst (simple_decision_logic k s c)) < k
       \<and> starved_tier c (snd (simple_decision_logic k s c)) review_action k (prs_items s)
       \<and> starved_tier c (snd (simple_decision_logic k s c)) implement_action
             (k - length a1) (open_items s)
       \<and> starved_tier c (snd (simple_decision_logic k s c)) decompose_action
             (k - length (a1 @ a2)) (epics_items s))"
proof
  show "simple_decision_logic K state cur =
     (let a1 = first_admitted cur (map review_action (take K (prs_items state)));
          c1 = cur \<union> action_key ` set a1;
          a2 = first_admitted c1
                 (map implement_action (take (K - length a1) (open_items state)));
          c2 = c1 \<union> action_key ` set a2;
          a3 = first_admitted c2
                 (map decompose_action (take (K - length (a1 @ a2)) (epics_items state)))
      in (a1 @ a2 @ a3, c2 \<union> action_key ` set a3))"
    by (rule simple_decision_logic_closed_form)
next
  define a1 where "a1 = first_admitted three_keys
      (map review_action (take 4 (prs_items three_tier_state)))"
  define a2 where "a2 = first_admitted (three_keys \<union> action_key ` set a1)
      (map implement_action (take (4 - length a1) (open_items three_tier_state)))"
  have e1: "a1 = [review_action (example_item ''webapp'' 13),
      review_action (example_item ''webapp'' 14), review_action (example_item ''webapp'' 15)]"
    by (simp add: a1_def three_tier_state_def three_keys_def example_item_def action_key_def
        review_action_def fa_simps)
  have e2: "a2 = []"
    unfolding a2_def e1
    by (simp add: three_tier_state_def three_keys_def example_item_def action_key_def
        review_action_def implement_action_def fa_simps)
  have "length (fst (simple_decision_logic 4 three_tier_state three_keys)) < 4"
    by (simp add: three_tier_fallback)
  moreover have "starved_tier three_keys
      (snd (simple_decision_logic 4 three_tier_state three_keys)) review_action 4
      (prs_items three_tier_state)"
    unfolding three_tier_fallback
    by (simp add: starved_tier_def three_tier_state_def three_keys_def example_item_def
        action_key_def review_action_def)
  moreover have "starved_tier three_keys
      (snd (simple_decision_logic 4 three_tier_state three_keys)) implement_action
      (4 - length a1) (open_items three_tier_state)"
    unfolding three_tier_fallback e1
    by (simp add: starved_tier_def three_tier_state_def three_keys_def example_item_def
        action_key_def implement_action_def)
  moreover have "starved_tier three_keys
      (snd (simple_decision_logic 4 three_tier_state three_keys)) decompose_action
      (4 - length (a1 @ a2)) (epics_items three_tier_state)"
    unfolding three_tier_fallback e1 e2
    by (simp add: starved_tier_def three_tier_state_def three_keys_def example_item_def
        action_key_def decompose_action_def)
  ultimately show "\<exists>s k c a1 a2.
         a1 = first_admitted c (map review_action (take k (prs_items s)))
       \<and> a2 = first_admitted (c \<union> action_key ` set a1)
                 (map implement_action (take (k - length a1) (open_items s)))
       \<and> length (fst (simple_decision_logic k s c)) < k
       \<and> starved_tier c (snd (simple_decision_logic k s c)) review_action k (prs_items s)
       \<and> starved_tier c (snd (simple_decision_logic k s c)) implement_action
             (k - length a1) (open_items s)
       \<and> starved_tier c (snd (simple_decision_logic k s c)) decompose_action
             (k - length (a1 @ a2)) (epics_items s)"
    using a1_def a2_def by blast
qed


section \<open>The retry loop of the executor agent\<close>

declare attempt_loop.simps [simp del]

lemma attempt_loop_count:
  "attempt_loop R d T env i log = (res, log') \<Longrightarrow> runs log = i \<Longrightarrow>
   recorded_attempts res = Some (runs log') \<or> (R < i)"
proof (induction R d T env i log rule: attempt_loop.induct)
  case (1 R d T env i log)
  show ?case
  proof (cases "i < R")
    case False
    with "1.prems" show ?thesis
      by (auto simp: attempt_loop.simps[of R d T env i log] recorded_attempts_def
          failed_result_def)
  next
    case True
    show ?thesis
    proof (cases "env i")
      case (Exits s rc out err)
      show ?thesis
      proof (cases "\<not> s > T \<and> rc \<noteq> 0 \<and> i < R - 1")
        case True
        with \<open>i < R\<close> Exits "1.prems"
        have "attempt_loop R d T env (i + 1) (after_sleep d (after_run s log)) = (res, log')"
          by (simp add: attempt_loop.simps[of R d T env i log])
        moreover have "runs (after_sleep d (after_run s log)) = i + 1"
          using "1.prems" by (simp add: after_sleep_def after_run_def)
        ultimately show ?thesis
          using "1.IH"(1)[OF \<open>i < R\<close> Exits] True by auto
      next
        case False
        with \<open>i < R\<close> Exits "1.prems" show ?thesis
          by (auto simp: attempt_loop.simps[of R d T env i log] recorded_attempts_def
              failed_result_def success_result_def after_run_def Let_def split: if_splits)
      qed
    next
      case (Crashes msg)
      show ?thesis
      proof (cases "i < R - 1")
        case True
        with \<open>i < R\<close> Crashes "1.prems"
        have "attempt_loop R d T env (i + 1) (after_sleep d (after_run 0 log)) = (res, log')"
          by (simp add: attempt_loop.simps[of R d T env i log])
        moreover have "runs (after_sleep d (after_run 0 log)) = i + 1"
          using "1.prems" by (simp add: after_sleep_def after_run_def)
        ultimately show ?thesis
          using "1.IH"(2)[OF \<open>i < R\<close> Crashes True] True by auto
      next
        case False
        with \<open>i < R\<close> Crashes "1.prems" show ?thesis
          by (auto simp: attempt_loop.simps[of R d T env i log] recorded_attempts_def
              failed_result_def after_run_def split: if_splits)
      qed
    qed
  qed
qed

lemma attempt_loop_transient_step:
  assumes "i < R" "transient T (env i)" "i < R - 1"
  shows "\<exists>s. attempt_loop R d T env i log =
     attempt_loop R d T env (i + 1) (after_sleep d (after_run s log))"
proof (cases "env i")
  case (Exits s rc out err)
  with assms show ?thesis
    by (intro exI[of _ s]) (simp add: attempt_loop.simps[of R d T env i log] transient_def)
next
  case (Crashes msg)
  with assms show ?thesis
    by (intro exI[of _ 0]) (simp add: attempt_loop.simps[of R d T env i log])
qed

lemma attempt_loop_transient_last:
  assumes "i < R" "transient T (env i)" "\<not> i < R - 1"
  shows "\<exists>s msg out. attempt_loop R d T env i log =
     (failed_result msg out (Some R), after_run s log)"
proof (cases "env i")
  case (Exits s rc out err)
  with assms show ?thesis
    by (auto simp: attempt_loop.simps[of R d T env i log] transient_def Let_def)
next
  case (Crashes msg)
  with assms show ?thesis
    by (auto simp: attempt_loop.simps[of R d T env i log])
qed

lemma attempt_loop_all_transient:
  assumes "\<forall>j<R. transient T (env j)" "i < R" "runs log = i" "sleeps log = replicate i d"
  shows "res_status (fst (attempt_loop R d T env i log)) = ''failed''
    \<and> res_attempts (fst (attempt_loop R d T env i log)) = Some R
    \<and> runs (snd (attempt_loop R d T env i log)) = R
    \<and> sleeps (snd (attempt_loop R d T env i log)) = replicate (R - 1) d"
  using assms(2-)
proof (induction "R - i" arbitrary: i log)
  case 0
  then show ?case by simp
next
  case (Suc n)
  from Suc.prems(1) assms(1) have tr: "transient T (env i)" by blast
  show ?case
  proof (cases "i < R - 1")
    case True
    from attempt_loop_transient_step[of i R T env d log, OF Suc.prems(1) tr True] obtain s where
      st: "attempt_loop R d T env i log = attempt_loop R d T env (i + 1) (after_sleep d (after_run s log))"
      by blast
    have "n = R - (i + 1)" using Suc.hyps(2) by simp
    moreover have "i + 1 < R" using True by simp
    moreover have "runs (after_sleep d (after_run s log)) = i + 1"
      using Suc.prems(2) by (simp add: after_sleep_def after_run_def)
    moreover have "sleeps (after_sleep d (after_run s log)) = replicate (i + 1) d"
      using Suc.prems(3) by (simp add: after_sleep_def after_run_def replicate_append_same)
    ultimately show ?thesis unfolding st by (rule Suc.hyps(1))
  next
    case False
    from attempt_loop_transient_last[of i R T env d log, OF Suc.prems(1) tr False] obtain s msg out where
      "attempt_loop R d T env i log = (failed_result msg out (Some R), after_run s log)" by blast
    moreover from False Suc.prems(1) have "i = R - 1" "Suc i = R" by simp_all
    ultimately show ?thesis using Suc.prems(2,3)
      by (simp add: failed_result_def after_run_def)
  qed
qed

lemma attempt_loop_timeout:
  assumes "\<forall>j<i. transient T (env j)" "times_out T (env i)" "i < R"
    "k \<le> i" "runs log = k" "sleeps log = replicate k d"
  shows "fst (attempt_loop R d T env k log) =
       failed_result (timeout_message T) None (Some (i + 1))
    \<and> runs (snd (attempt_loop R d T env k log)) = i + 1
    \<and> sleeps (snd (attempt_loop R d T env k log)) = replicate i d"
  using assms(4-)
proof (induction "i - k" arbitrary: k log)
  case 0
  then have "k = i" by simp
  from assms(2) obtain s rc out err where "env i = Exits s rc out err" "s > T"
    by (auto simp: times_out_def split: proc.splits)
  with assms(3) 0 \<open>k = i\<close> show ?case
    by (simp add: attempt_loop.simps[of R d T env i log] after_run_def)
next
  case (Suc n)
  then have lt: "k < i" by simp
  with assms(1) have tr: "transient T (env k)" by blast
  from lt assms(3) have "k < R" "k < R - 1" by simp_all
  from attempt_loop_transient_step[of k R T env d log, OF this(1) tr this(2)] obtain s where
    st: "attempt_loop R d T env k log = attempt_loop R d T env (k + 1) (after_sleep d (after_run s log))"
    by blast
  have "n = i - (k + 1)" using Suc.hyps(2) by simp
  moreover have "k + 1 \<le> i" using lt by simp
  moreover have "runs (after_sleep d (after_run s log)) = k + 1"
    using Suc.prems(2) by (simp add: after_sleep_def after_run_def)
  moreover have "sleeps (after_sleep d (after_run s log)) = replicate (k + 1) d"
    using Suc.prems(3) by (simp add: after_sleep_def after_run_def replicate_append_same)
  ultimately show ?case unfolding st by (rule Suc.hyps(1))
qed

text \<open>
  C6. When the attempts before attempt \<open>i\<close> fail in the retried way and attempt \<open>i\<close>
  runs into the timeout, the command returns one failed result whose error is the
  timeout message and whose count is \<open>i + 1\<close>, and the executor was started exactly
  \<open>i + 1\<close> times: nothing is attempted after the timeout.
\<close>

theorem timeout_is_terminal:
  assumes "i < retry_attempts cfg"
    and "\<forall>j<i. transient (effective_timeout cfg timeout) (env j)"
    and "times_out (effective_timeout cfg timeout) (env i)"
  shows "res_status (fst (run_claude_command cfg timeout env empty_log)) = ''failed''
    \<and> res_error (fst (run_claude_command cfg timeout env empty_log)) =
         Some (timeout_message (effective_timeout cfg timeout))
    \<and> res_attempts (fst (run_claude_command cfg timeout env empty_log)) = Some (i + 1)
    \<and> runs (snd (run_claude_command cfg timeout env empty_log)) = i + 1
    \<and> sleeps (snd (run_claude_command cfg timeout env empty_log)) =
         replicate i (retry_delay cfg)"
proof -
  have "runs empty_log = 0" "sleeps empty_log = replicate 0 (retry_delay cfg)"
    by (simp_all add: empty_log_def)
  from attempt_loop_timeout[OF assms(2,3,1) le0 this]
  show ?thesis
    by (simp add: run_claude_command_def effective_timeout_def failed_result_def)
qed

theorem timeout_is_terminal_witness:
  "1 < retry_attempts ORCHESTRATOR_CONFIG
   \<and> transient (effective_timeout ORCHESTRATOR_CONFIG None) (fails_then_hangs 0)
   \<and> times_out (effective_timeout ORCHESTRATOR_CONFIG None) (fails_then_hangs 1)
   \<and> res_status (fst (run_claude_command ORCHESTRATOR_CONFIG None fails_then_hangs empty_log))
        = ''failed''
   \<and> res_error (fst (run_claude_command ORCHESTRATOR_CONFIG None fails_then_hangs empty_log))
        = Some ''Command timed out after 600 seconds''
   \<and> res_attempts (fst (run_claude_command ORCHESTRATOR_CONFIG None fails_then_hangs
        empty_log)) = Some 2
   \<and> runs (snd (run_claude_command ORCHESTRATOR_CONFIG None fails_then_hangs empty_log)) = 2
   \<and> sleeps (snd (run_claude_command ORCHESTRATOR_CONFIG None fails_then_hangs empty_log))
        = [30]"
proof -
  have h1: "1 < retry_attempts ORCHESTRATOR_CONFIG"
    by (simp add: ORCHESTRATOR_CONFIG_def)
  have h2: "\<forall>j<1. transient (effective_timeout ORCHESTRATOR_CONFIG None) (fails_then_hangs j)"
    by (simp add: transient_def fails_then_hangs_def effective_timeout_def
        ORCHESTRATOR_CONFIG_def)
  have h3: "times_out (effective_timeout ORCHESTRATOR_CONFIG None) (fails_then_hangs 1)"
    by (simp add: times_out_def fails_then_hangs_def effective_timeout_def
        ORCHESTRATOR_CONFIG_def)
  have e: "effective_timeout ORCHESTRATOR_CONFIG None = 600"
    "retry_delay ORCHESTRATOR_CONFIG = 30"
    by (simp_all add: effective_timeout_def ORCHESTRATOR_CONFIG_def)
  have h2': "transient (effective_timeout ORCHESTRATOR_CONFIG None) (fails_then_hangs 0)"
    using h2 by simp
  from timeout_is_terminal[OF h1 h2 h3] h1 h2' h3 show ?thesis
    by (simp add: e timeout_message_def)
qed

text \<open>
  C7. When every attempt fails in the retried way, the executor is started
  \<open>retry_attempts\<close> times with a pause of \<open>retry_delay\<close> between two attempts, and the
  failed result records \<open>retry_attempts\<close>. Whatever the attempts do, the count recorded
  in the result is the number of times the executor was started.
\<close>

theorem transient_failures_retried:
  "((\<forall>j<retry_attempts cfg. transient (effective_timeout cfg timeout) (env j)) \<longrightarrow>
      res_status (fst (run_claude_command cfg timeout env empty_log)) = ''failed''
      \<and> res_attempts (fst (run_claude_command cfg timeout env empty_log))
           = Some (retry_attempts cfg)
      \<and> runs (snd (run_claude_command cfg timeout env empty_log)) = retry_attempts cfg
      \<and> sleeps (snd (run_claude_command cfg timeout env empty_log))
           = replicate (retry_attempts cfg - 1) (retry_delay cfg))
   \<and> recorded_attempts (fst (run_claude_command cfg timeout env empty_log))
        = Some (runs (snd (run_claude_command cfg timeout env empty_log)))"
proof
  show "(\<forall>j<retry_attempts cfg. transient (effective_timeout cfg timeout) (env j)) \<longrightarrow>
      res_status (fst (run_claude_command cfg timeout env empty_log)) = ''failed''
      \<and> res_attempts (fst (run_claude_command cfg timeout env empty_log))
           = Some (retry_attempts cfg)
      \<and> runs (snd (run_claude_command cfg timeout env empty_log)) = retry_attempts cfg
      \<and> sleeps (snd (run_claude_command cfg timeout env empty_log))
           = replicate (retry_attempts cfg - 1) (retry_delay cfg)"
  proof
    assume tr: "\<forall>j<retry_attempts cfg. transient (effective_timeout cfg timeout) (env j)"
    show "res_status (fst (run_claude_command cfg timeout env empty_log)) = ''failed''
      \<and> res_attempts (fst (run_claude_command cfg timeout env empty_log))
           = Some (retry_attempts cfg)
      \<and> runs (snd (run_claude_command cfg timeout env empty_log)) = retry_attempts cfg
      \<and> sleeps (snd (run_claude_command cfg timeout env empty_log))
           = replicate (retry_attempts cfg - 1) (retry_delay cfg)"
    proof (cases "retry_attempts cfg = 0")
      case True
      then show ?thesis
        by (simp add: run_claude_command_def attempt_loop.simps[of 0] failed_result_def
            empty_log_def)
    next
      case False
      then have pos: "0 < retry_attempts cfg" by simp
      have "runs empty_log = 0" "sleeps empty_log = replicate 0 (retry_delay cfg)"
        by (simp_all add: empty_log_def)
      from attempt_loop_all_transient[OF tr pos this] show ?thesis
        by (simp add: run_claude_command_def effective_timeout_def)
    qed
  qed
next
  obtain res log' where r: "run_claude_command cfg timeout env empty_log = (res, log')"
    by (cases "run_claude_command cfg timeout env empty_log")
  then have "attempt_loop (retry_attempts cfg) (retry_delay cfg)
      (effective_timeout cfg timeout) env 0 empty_log = (res, log')"
    by (simp add: run_claude_command_def effective_timeout_def)
  from attempt_loop_count[OF this] have "recorded_attempts res = Some (runs log')"
    by (simp add: empty_log_def)
  then show "recorded_attempts (fst (run_claude_command cfg timeout env empty_log))
        = Some (runs (snd (run_claude_command cfg timeout env empty_log)))"
    unfolding r by simp
qed

theorem transient_failures_retried_witness:
  "transient (effective_timeout ORCHESTRATOR_CONFIG None) (always_fails 0)
   \<and> transient (effective_timeout ORCHESTRATOR_CONFIG None) (always_fails 1)
   \<and> res_status (fst (run_claude_command ORCHESTRATOR_CONFIG None always_fails empty_log))
        = ''failed''
   \<and> res_attempts (fst (run_claude_command ORCHESTRATOR_CONFIG None always_fails empty_log))
        = Some 2
   \<and> runs (snd (run_claude_command ORCHESTRATOR_CONFIG None always_fails empty_log)) = 2
   \<and> sleeps (snd (run_claude_command ORCHESTRATOR_CONFIG None always_fails empty_log)) = [30]
   \<and> recorded_attempts (fst (run_claude_command ORCHESTRATOR_CONFIG None always_fails
        empty_log)) = Some 2"
proof -
  have h: "\<forall>j<retry_attempts ORCHESTRATOR_CONFIG.
       transient (effective_timeout ORCHESTRATOR_CONFIG None) (always_fails j)"
    by (simp add: transient_def always_fails_def effective_timeout_def
        ORCHESTRATOR_CONFIG_def)
  have e: "retry_attempts ORCHESTRATOR_CONFIG = 2" "retry_delay ORCHESTRATOR_CONFIG = 30"
    by (simp_all add: ORCHESTRATOR_CONFIG_def)
  have r: "replicate (2 - 1) (30::nat) = [30]" by (simp add: numeral_2_eq_2)
  have h': "transient (effective_timeout ORCHESTRATOR_CONFIG None) (always_fails 0)"
    "transient (effective_timeout ORCHESTRATOR_CONFIG None) (always_fails 1)"
    using h by (simp_all add: e)
  from transient_failures_retried[of ORCHESTRATOR_CONFIG None always_fails] h h'
  show ?thesis unfolding e r by simp
qed

section \<open>The snapshot builder: the number floor\<close>







section \<open>The join barrier\<close>

lemma join_loop_mono: "now \<le> join_loop T cs now"
proof (induction cs arbitrary: now)
  case Nil
  then show ?case by simp
next
  case (Cons c cs)
  have "now \<le> (if c \<le> now then now else min c (now + T))" by simp
  also have "\<dots> \<le> join_loop T cs (if c \<le> now then now else min c (now + T))"
    by (rule Cons.IH)
  finally show ?case by simp
qed

lemma join_loop_sum: "join_loop T cs now \<le> now + length cs * T"
proof (induction cs arbitrary: now)
  case Nil
  then show ?case by simp
next
  case (Cons c cs)
  have "join_loop T cs (if c \<le> now then now else min c (now + T))
      \<le> (if c \<le> now then now else min c (now + T)) + length cs * T"
    by (rule Cons.IH)
  also have "\<dots> \<le> (now + T) + length cs * T" by simp
  finally show ?case by simp
qed

lemma join_loop_slowest:
  "now \<le> m \<Longrightarrow> \<forall>c\<in>set cs. c \<le> m \<Longrightarrow> join_loop T cs now \<le> m"
proof (induction cs arbitrary: now)
  case Nil
  then show ?case by simp
next
  case (Cons c cs)
  have "(if c \<le> now then now else min c (now + T)) \<le> m"
    using Cons.prems by auto
  moreover have "\<forall>c\<in>set cs. c \<le> m" using Cons.prems(2) by simp
  ultimately show ?case using Cons.IH by simp
qed

lemma join_loop_all_late:
  "\<forall>c\<in>set cs. now + length cs * T \<le> c \<Longrightarrow> join_loop T cs now = now + length cs * T"
proof (induction cs arbitrary: now)
  case Nil
  then show ?case by simp
next
  case (Cons c cs)
  from Cons.prems have c: "now + T + length cs * T \<le> c" by simp
  then have step: "(if c \<le> now then now else min c (now + T)) = now + T" by auto
  have "\<forall>c'\<in>set cs. (now + T) + length cs * T \<le> c'"
    using Cons.prems by (simp add: add.assoc)
  from Cons.IH[OF this] show ?case by (simp add: step)
qed

lemma slow_worker:
  "worker ORCHESTRATOR_CONFIG (review_action (example_item r n), fails_then_hangs) =
     (1229, \<lparr>res_status = ''failed'',
        res_error = Some ''Command timed out after 600 seconds'', res_output = None,
        res_attempt = None, res_attempts = Some 2,
        res_action = Some (review_action (example_item r n))\<rparr>)"
  by (simp add: worker_def execute_task_def review_action_def run_claude_command_def
      ORCHESTRATOR_CONFIG_def attempt_loop.simps fails_then_hangs_def empty_log_def
      after_run_def after_sleep_def failed_result_def timeout_message_def)

text \<open>
  C5, as stated, fails. With the configured timeout of 600 seconds and two actions
  whose workers are over after 1229 seconds, the join barrier returns after 1200
  seconds, twice the timeout.
\<close>

theorem join_barrier_exceeds_one_timeout:
  "length two_slow_jobs = 2
   \<and> action_timeout ORCHESTRATOR_CONFIG = 600
   \<and> fst (execute_actions ORCHESTRATOR_CONFIG two_slow_jobs) = 1200
   \<and> \<not> fst (execute_actions ORCHESTRATOR_CONFIG two_slow_jobs)
         \<le> action_timeout ORCHESTRATOR_CONFIG"
proof -
  have t: "action_timeout ORCHESTRATOR_CONFIG = 600" by (simp add: ORCHESTRATOR_CONFIG_def)
  have "fst (execute_actions ORCHESTRATOR_CONFIG two_slow_jobs) = 1200"
    by (simp add: execute_actions_def two_slow_jobs_def slow_worker t Let_def)
  then show ?thesis using t by (simp add: two_slow_jobs_def)
qed

text \<open>
  C5, amended. The join barrier returns no later than the sum of the timeouts of the
  joins, and no later than any second by which every worker is over; when no worker
  is over before that sum, it returns exactly at the sum.
\<close>

theorem join_barrier_bound:
  "fst (execute_actions cfg jobs) \<le> length jobs * action_timeout cfg
   \<and> ((\<forall>j\<in>set jobs. fst (worker cfg j) \<le> m) \<longrightarrow> fst (execute_actions cfg jobs) \<le> m)
   \<and> ((\<forall>j\<in>set jobs. length jobs * action_timeout cfg \<le> fst (worker cfg j)) \<longrightarrow>
        fst (execute_actions cfg jobs) = length jobs * action_timeout cfg)"
proof (cases "jobs = []")
  case True
  then show ?thesis by (simp add: execute_actions_def)
next
  case False
  have "join_loop (action_timeout cfg) (map fst (map (worker cfg) jobs)) 0
      \<le> 0 + length (map fst (map (worker cfg) jobs)) * action_timeout cfg"
    by (rule join_loop_sum)
  moreover have "join_loop (action_timeout cfg) (map fst (map (worker cfg) jobs)) 0 \<le> m"
    if "\<forall>j\<in>set jobs. fst (worker cfg j) \<le> m"
    using that by (intro join_loop_slowest) auto
  moreover have "join_loop (action_timeout cfg) (map fst (map (worker cfg) jobs)) 0
      = length jobs * action_timeout cfg"
    if "\<forall>j\<in>set jobs. length jobs * action_timeout cfg \<le> fst (worker cfg j)"
    using that
      join_loop_all_late[of "map fst (map (worker cfg) jobs)" 0 "action_timeout cfg"]
    by simp
  ultimately show ?thesis using False by (simp add: execute_actions_def Let_def)
qed

theorem join_barrier_bound_witness:
  "fst (execute_actions ORCHESTRATOR_CONFIG two_slow_jobs)
      \<le> length two_slow_jobs * action_timeout ORCHESTRATOR_CONFIG
   \<and> fst (worker ORCHESTRATOR_CONFIG (two_slow_jobs ! 0)) \<le> 1229
   \<and> fst (worker ORCHESTRATOR_CONFIG (two_slow_jobs ! 1)) \<le> 1229
   \<and> fst (execute_actions ORCHESTRATOR_CONFIG two_slow_jobs) \<le> 1229
   \<and> length two_slow_jobs * action_timeout ORCHESTRATOR_CONFIG
        \<le> fst (worker ORCHESTRATOR_CONFIG (two_slow_jobs ! 0))
   \<and> length two_slow_jobs * action_timeout ORCHESTRATOR_CONFIG
        \<le> fst (worker ORCHESTRATOR_CONFIG (two_slow_jobs ! 1))
   \<and> fst (execute_actions ORCHESTRATOR_CONFIG two_slow_jobs)
        = length two_slow_jobs * action_timeout ORCHESTRATOR_CONFIG"
proof -
  have t: "action_timeout ORCHESTRATOR_CONFIG = 600" by (simp add: ORCHESTRATOR_CONFIG_def)
  have h: "\<forall>j\<in>set two_slow_jobs. fst (worker ORCHESTRATOR_CONFIG j) \<le> 1229"
    by (simp add: two_slow_jobs_def slow_worker)
  have h': "\<forall>j\<in>set two_slow_jobs.
      length two_slow_jobs * action_timeout ORCHESTRATOR_CONFIG
        \<le> fst (worker ORCHESTRATOR_CONFIG j)"
    by (simp add: two_slow_jobs_def slow_worker t)
  have i: "fst (worker ORCHESTRATOR_CONFIG (two_slow_jobs ! 0)) \<le> 1229"
    "fst (worker ORCHESTRATOR_CONFIG (two_slow_jobs ! 1)) \<le> 1229"
    "length two_slow_jobs * action_timeout ORCHESTRATOR_CONFIG
        \<le> fst (worker ORCHESTRATOR_CONFIG (two_slow_jobs ! 0))"
    "length two_slow_jobs * action_timeout ORCHESTRATOR_CONFIG
        \<le> fst (worker ORCHESTRATOR_CONFIG (two_slow_jobs ! 1))"
    by (simp_all add: two_slow_jobs_def slow_worker t)
  with join_barrier_bound[of ORCHESTRATOR_CONFIG two_slow_jobs 1229] h h'
  show ?thesis by blast
qed

lemma filter_sorted_prefix:
  "t1 \<le> t2 \<Longrightarrow> sorted (map f xs) \<Longrightarrow>
   prefix (filter (\<lambda>x. f x \<le> t1) xs) (filter (\<lambda>x. f x \<le> (t2::nat)) xs)"
proof (induction xs)
  case Nil
  then show ?case by simp
next
  case (Cons x xs)
  show ?case
  proof (cases "f x \<le> t1")
    case True
    with Cons show ?thesis by simp
  next
    case False
    with Cons.prems(2) have "\<forall>y\<in>set xs. \<not> f y \<le> t1" by auto
    then have "filter (\<lambda>x. f x \<le> t1) xs = []" by (simp add: filter_empty_conv)
    with False show ?thesis by simp
  qed
qed

lemma results_at_prefix:
  "t1 \<le> t2 \<Longrightarrow> prefix (results_at ws t1) (results_at ws t2)"
  unfolding results_at_def
  by (intro map_mono_prefix filter_sorted_prefix) simp_all

lemma length_results_at:
  "length (results_at ws t) = length (filter (\<lambda>w. fst w \<le> t) ws)"
  by (simp add: results_at_def filter_sort)

lemma results_at_member:
  "w \<in> set ws \<Longrightarrow> fst w \<le> t \<Longrightarrow> snd w \<in> set (results_at ws t)"
  by (auto simp: results_at_def intro!: image_eqI[of _ snd w])

lemma results_at_grows:
  assumes "w \<in> set ws" "t1 < fst w" "fst w \<le> t2"
  shows "length (results_at ws t1) < length (results_at ws t2)"
proof -
  have "filter (\<lambda>w. fst w \<le> t1) ws = filter (\<lambda>w. fst w \<le> t1) (filter (\<lambda>w. fst w \<le> t2) ws)"
    using assms(2,3) by (auto intro!: filter_cong)
  moreover have "length (filter (\<lambda>w. fst w \<le> t1) (filter (\<lambda>w. fst w \<le> t2) ws))
      < length (filter (\<lambda>w. fst w \<le> t2) ws)"
    using assms by (intro length_filter_less[of w]) auto
  ultimately show ?thesis by (simp add: length_results_at)
qed

text \<open>
  C9, as stated, fails. With one action whose worker is over after 1229 seconds, the
  list is returned empty at second 600, and at second 1229 the same list holds the
  result of the worker.
\<close>

theorem late_completion_alters_returned_list:
  "execute_actions ORCHESTRATOR_CONFIG one_slow_job = (600, [])
   \<and> results_later ORCHESTRATOR_CONFIG one_slow_job 1229 =
      [\<lparr>res_status = ''failed'',
        res_error = Some ''Command timed out after 600 seconds'', res_output = None,
        res_attempt = None, res_attempts = Some 2,
        res_action = Some (review_action (example_item ''webapp'' 12))\<rparr>]
   \<and> results_later ORCHESTRATOR_CONFIG one_slow_job 1229
        \<noteq> snd (execute_actions ORCHESTRATOR_CONFIG one_slow_job)"
proof -
  have t: "action_timeout ORCHESTRATOR_CONFIG = 600" by (simp add: ORCHESTRATOR_CONFIG_def)
  have a: "execute_actions ORCHESTRATOR_CONFIG one_slow_job = (600, [])"
    by (simp add: execute_actions_def one_slow_job_def slow_worker t Let_def results_at_def)
  have b: "results_later ORCHESTRATOR_CONFIG one_slow_job 1229 =
      [\<lparr>res_status = ''failed'',
        res_error = Some ''Command timed out after 600 seconds'', res_output = None,
        res_attempt = None, res_attempts = Some 2,
        res_action = Some (review_action (example_item ''webapp'' 12))\<rparr>]"
    by (simp add: results_later_def one_slow_job_def slow_worker results_at_def)
  show ?thesis unfolding a b by simp
qed

text \<open>
  C9, amended. A late completion is appended, not discarded: the contents of the list
  at the second of the return are exactly what \<open>_execute_actions\<close> returns, they are
  a prefix of the contents at every later second, and once a worker that was still
  running at the return is over, its result is in the list, which is longer than the
  list that was returned.
\<close>

theorem late_completion_only_appends:
  assumes "fst (execute_actions cfg jobs) \<le> t"
  shows "prefix (snd (execute_actions cfg jobs)) (results_later cfg jobs t)
    \<and> results_later cfg jobs (fst (execute_actions cfg jobs)) = snd (execute_actions cfg jobs)
    \<and> (\<forall>j\<in>set jobs.
          fst (execute_actions cfg jobs) < fst (worker cfg j) \<and> fst (worker cfg j) \<le> t \<longrightarrow>
            snd (worker cfg j) \<in> set (results_later cfg jobs t)
            \<and> length (snd (execute_actions cfg jobs)) < length (results_later cfg jobs t))"
proof (cases "jobs = []")
  case True
  then show ?thesis by (simp add: execute_actions_def results_later_def results_at_def)
next
  case False
  then have e: "execute_actions cfg jobs =
      (join_loop (action_timeout cfg) (map fst (map (worker cfg) jobs)) 0,
       results_at (map (worker cfg) jobs)
         (join_loop (action_timeout cfg) (map fst (map (worker cfg) jobs)) 0))"
    by (simp add: execute_actions_def Let_def)
  have "snd (worker cfg j) \<in> set (results_later cfg jobs t)
      \<and> length (snd (execute_actions cfg jobs)) < length (results_later cfg jobs t)"
    if "j \<in> set jobs" "fst (execute_actions cfg jobs) < fst (worker cfg j)"
      "fst (worker cfg j) \<le> t" for j
  proof -
    from that(1) have m: "worker cfg j \<in> set (map (worker cfg) jobs)" by simp
    from results_at_member[OF m that(3)] results_at_grows[OF m _ that(3)] that(2)
    show ?thesis unfolding e results_later_def by simp
  qed
  with assms show ?thesis
    unfolding e results_later_def by (simp add: results_at_prefix)
qed

theorem late_completion_only_appends_witness:
  "fst (execute_actions ORCHESTRATOR_CONFIG one_slow_job) \<le> 1229
   \<and> fst (execute_actions ORCHESTRATOR_CONFIG one_slow_job)
        < fst (worker ORCHESTRATOR_CONFIG (one_slow_job ! 0))
   \<and> fst (worker ORCHESTRATOR_CONFIG (one_slow_job ! 0)) \<le> 1229
   \<and> prefix (snd (execute_actions ORCHESTRATOR_CONFIG one_slow_job))
        (results_later ORCHESTRATOR_CONFIG one_slow_job 1229)
   \<and> results_later ORCHESTRATOR_CONFIG one_slow_job 600 = []
   \<and> snd (worker ORCHESTRATOR_CONFIG (one_slow_job ! 0))
        \<in> set (results_later ORCHESTRATOR_CONFIG one_slow_job 1229)
   \<and> length (snd (execute_actions ORCHESTRATOR_CONFIG one_slow_job))
        < length (results_later ORCHESTRATOR_CONFIG one_slow_job 1229)"
proof -
  have t: "action_timeout ORCHESTRATOR_CONFIG = 600" by (simp add: ORCHESTRATOR_CONFIG_def)
  have a: "execute_actions ORCHESTRATOR_CONFIG one_slow_job = (600, [])"
    by (simp add: execute_actions_def one_slow_job_def slow_worker t Let_def results_at_def)
  then have h: "fst (execute_actions ORCHESTRATOR_CONFIG one_slow_job) \<le> 1229" by simp
  have m: "one_slow_job ! 0 \<in> set one_slow_job" by (simp add: one_slow_job_def)
  have l: "fst (execute_actions ORCHESTRATOR_CONFIG one_slow_job)
        < fst (worker ORCHESTRATOR_CONFIG (one_slow_job ! 0))"
    "fst (worker ORCHESTRATOR_CONFIG (one_slow_job ! 0)) \<le> 1229"
    unfolding a by (simp_all add: one_slow_job_def slow_worker)
  from late_completion_only_appends[OF h] m l h show ?thesis by (simp add: a)
qed


end
